theory Spec2Isabelle
  imports Main "HOL-Library.Word"
begin

section \<open>Node buffers\<close>

text \<open>
  A Node \<open>Buffer\<close> is a list of bytes. Reads and writes outside the buffer raise
  \<open>RangeError\<close> in Node, so they return a sum. \<open>Buffer.copy\<close> never raises: it copies
  what fits and does nothing when the target offset is past the end. \<open>subarray\<close> takes
  JavaScript indices: a negative index counts from the end, and both are clamped.
\<close>

type_synonym byte = "8 word"
type_synonym buffer = "byte list"

datatype js_error = RangeError | FsError string

definition bind_err :: "js_error + 'a \<Rightarrow> ('a \<Rightarrow> js_error + 'b) \<Rightarrow> js_error + 'b" where
  "bind_err r f = (case r of Inl e \<Rightarrow> Inl e | Inr x \<Rightarrow> f x)"

definition Buffer_alloc :: "nat \<Rightarrow> buffer" where
  "Buffer_alloc n = replicate n 0"

definition Buffer_from_ascii :: "string \<Rightarrow> buffer" where
  "Buffer_from_ascii str = map of_char str"

definition le32 :: "nat \<Rightarrow> buffer" where
  "le32 v = [of_nat (v mod 256), of_nat (v div 256 mod 256),
             of_nat (v div 65536 mod 256), of_nat (v div 16777216 mod 256)]"

definition writeUInt32LE :: "nat \<Rightarrow> nat \<Rightarrow> buffer \<Rightarrow> js_error + buffer" where
  "writeUInt32LE v offset buf =
     (if offset + 4 \<le> length buf \<and> v < 2 ^ 32
      then Inr (take offset buf @ le32 v @ drop (offset + 4) buf)
      else Inl RangeError)"

definition writeUInt8 :: "byte \<Rightarrow> nat \<Rightarrow> buffer \<Rightarrow> js_error + buffer" where
  "writeUInt8 v offset buf =
     (if offset < length buf then Inr (buf[offset := v]) else Inl RangeError)"

definition readUInt32LE :: "buffer \<Rightarrow> nat \<Rightarrow> js_error + nat" where
  "readUInt32LE buf offset =
     (if offset + 4 \<le> length buf
      then Inr (unat (buf ! offset) + 256 * unat (buf ! (offset + 1)) +
                65536 * unat (buf ! (offset + 2)) + 16777216 * unat (buf ! (offset + 3)))
      else Inl RangeError)"

definition Buffer_copy :: "buffer \<Rightarrow> buffer \<Rightarrow> nat \<Rightarrow> buffer" where
  "Buffer_copy src target targetStart =
     (if targetStart \<ge> length target then target
      else let n = min (length src) (length target - targetStart)
           in take targetStart target @ take n src @ drop (targetStart + n) target)"

definition clamp_index :: "int \<Rightarrow> nat \<Rightarrow> nat" where
  "clamp_index i n = (if i < 0 then nat (max (int n + i) 0) else min (nat i) n)"

definition subarray :: "buffer \<Rightarrow> int \<Rightarrow> int \<Rightarrow> buffer" where
  "subarray buf start end =
     (let b = clamp_index start (length buf); e = clamp_index end (length buf)
      in take (e - b) (drop b buf))"

definition subarray_from :: "buffer \<Rightarrow> int \<Rightarrow> buffer" where
  "subarray_from buf start = subarray buf start (int (length buf))"

definition JPEG_START_MARKER :: buffer where
  "JPEG_START_MARKER = [0xff, 0xd8, 0xff, 0xe0]"

definition JPEG_END_MARKER :: buffer where
  "JPEG_END_MARKER = [0xff, 0xd9]"

section \<open>The capture session\<close>

text \<open>
  One record holds everything a call of \<open>captureSingleFrameFromPrinter\<close> touches:
  the request, the fields of its \<open>PrinterCameraNode\<close>, the two timers of the Node
  runtime, the outer promise, the file system, and logs of the effects the handlers have
  on the outside (callback calls, socket writes, \<open>tls.connect\<close> calls, reconnect delays,
  \<open>console.warn\<close> lines, exceptions that leave a handler).

  A timer field of the class (\<open>operationTimeout\<close>, \<open>reconnectTimeout\<close>) says whether the
  field holds a handle; the matching \<open>...Pending\<close> flag says whether the runtime will
  still run the callback. \<open>clearTimeout\<close> and the firing itself end the pending state
  and leave the handle in the field, as in Node.

  \<open>console.log\<close>, \<open>console.debug\<close> and \<open>console.error\<close> lines are not modelled.
  \<open>this.emit('stopped')\<close> is not modelled either: no listener for it is registered
  anywhere in the repository, so the emit finds no handler. \<open>console.warn\<close> lines are
  kept, because they are the only trace of the decoder's internal signals.
\<close>

datatype fullpath = PathResolve string string
  \<comment> \<open>\<open>path.resolve(outputDir, outputFilename)\<close>, kept symbolic\<close>

text \<open>
  The file system holds the directories and the files written so far. It either
  accepts every write or raises its \<open>fault\<close> on every \<open>mkdirSync\<close> and \<open>writeFileSync\<close>.
\<close>

record filesystem =
  dirs :: "string list"
  files :: "(fullpath \<times> buffer) list"
  fault :: "js_error option"

definition existsSync :: "string \<Rightarrow> filesystem \<Rightarrow> bool" where
  "existsSync d f = (d \<in> set (dirs f))"

definition mkdirSync :: "string \<Rightarrow> filesystem \<Rightarrow> js_error + filesystem" where
  "mkdirSync d f = (case fault f of Some e \<Rightarrow> Inl e | None \<Rightarrow> Inr (f\<lparr>dirs := d # dirs f\<rparr>))"

definition writeFileSync :: "fullpath \<Rightarrow> buffer \<Rightarrow> filesystem \<Rightarrow> js_error + filesystem" where
  "writeFileSync p b f =
     (case fault f of Some e \<Rightarrow> Inl e | None \<Rightarrow> Inr (f\<lparr>files := (p, b) # files f\<rparr>))"

datatype failure =
    AlreadyInProgress        \<comment> \<open>"Camera connection attempt already in progress."\<close>
  | OperationTimedOut int    \<comment> \<open>"Operation timed out after ... seconds", with \<open>timeoutMs\<close>\<close>
  | ConnectionAborted        \<comment> \<open>"Connection attempt aborted, camera is not alive."\<close>
  | ConnectExhausted nat     \<comment> \<open>"Failed to connect to ... after N attempts."\<close>
  | SocketFailure string     \<comment> \<open>the socket's own error, with its code\<close>
  | ClosedUnexpectedly       \<comment> \<open>"Connection to ... closed unexpectedly with error."\<close>
  | MissingCredential        \<comment> \<open>"Printer IP and Access Code are required."\<close>
  | Thrown js_error          \<comment> \<open>an exception caught by the promise\<close>

datatype capture_result = Success buffer | Failure failure
  \<comment> \<open>a call of the \<open>resolve\<close> or of the \<open>reject\<close> callback handed to \<open>start\<close>\<close>

datatype js_value = Bytes buffer | PathString fullpath

datatype promise_state = Pending | Fulfilled js_value | Rejected failure

datatype warning = StartWhileAlive | InvalidPayloadSize nat | NotValidJpeg | SocketTimeoutWarning

text \<open>
  The first six fields are the request. \<open>socket\<close> says whether \<open>this.socket\<close> holds a
  socket; \<open>destroyed\<close> counts the calls of \<open>socket.destroy()\<close> and \<open>tlsConnects\<close> the calls
  of \<open>tls.connect\<close>. \<open>outcomes\<close> lists the calls of the two callbacks handed to \<open>start\<close>,
  \<open>written\<close> the buffers written to the socket, \<open>reconnectDelays\<close> the delays the reconnect
  timer was set with, \<open>thrown\<close> the exceptions that left a handler.
\<close>

record session =
  hostname :: string
  accessCode :: string
  port :: nat
  username :: string
  timeoutMs :: int
  outputDir :: string
  lastFrameData :: "buffer option"
  alive :: bool
  socket :: bool
  reconnectTimeout :: bool
  currentFrameBuffer :: buffer
  expectedPayloadSize :: nat
  isReceivingImage :: bool
  connectAttempts :: nat
  operationTimeout :: bool
  hasResolvedOrRejected :: bool
  operationTimerPending :: bool
  reconnectTimerPending :: bool
  outcomes :: "capture_result list"
  promise :: promise_state
  fs :: filesystem
  written :: "buffer list"
  tlsConnects :: nat
  destroyed :: nat
  reconnectDelays :: "nat list"
  warnings :: "warning list"
  thrown :: "js_error list"

subsection \<open>The authentication record\<close>

function pad_loop :: "nat \<Rightarrow> nat \<Rightarrow> buffer \<Rightarrow> js_error + (nat \<times> buffer)" where
  "pad_loop i offset buf =
     (if i < 32
      then bind_err (writeUInt8 0x00 offset buf) (\<lambda>buf'. pad_loop (i + 1) (offset + 1) buf')
      else Inr (offset, buf))"
  by pat_completeness auto
termination
  by (relation "measure (\<lambda>(i, offset, buf). 32 - i)") auto

declare pad_loop.simps [simp del]

definition buildAuthData :: "session \<Rightarrow> js_error + buffer" where
  "buildAuthData s =
     (let authBuffer = Buffer_alloc 80; offset = 0 in
      bind_err (writeUInt32LE 0x40 offset authBuffer) (\<lambda>authBuffer. let offset = offset + 4 in
      bind_err (writeUInt32LE 0x3000 offset authBuffer) (\<lambda>authBuffer. let offset = offset + 4 in
      bind_err (writeUInt32LE 0 offset authBuffer) (\<lambda>authBuffer. let offset = offset + 4 in
      bind_err (writeUInt32LE 0 offset authBuffer) (\<lambda>authBuffer. let offset = offset + 4 in
      let userBytes = Buffer_from_ascii (username s);
          authBuffer = Buffer_copy userBytes authBuffer offset;
          offset = offset + length userBytes in
      bind_err (pad_loop (length userBytes) offset authBuffer) (\<lambda>(offset, authBuffer).
      let accessCodeBytes = Buffer_from_ascii (accessCode s);
          authBuffer = Buffer_copy accessCodeBytes authBuffer offset;
          offset = offset + length accessCodeBytes in
      bind_err (pad_loop (length accessCodeBytes) offset authBuffer) (\<lambda>(offset, authBuffer).
      Inr authBuffer)))))))"

subsection \<open>The callbacks of \<open>captureSingleFrameFromPrinter\<close>\<close>

text \<open>
  \<open>stop\<close> is the method of the class. \<open>settle\<close> is what \<open>resolve\<close> and \<open>reject\<close> of a
  JavaScript promise do: only the first call has an effect. \<open>on_resolve\<close> and
  \<open>on_reject\<close> are the two callbacks that \<open>captureSingleFrameFromPrinter\<close> hands to
  \<open>camera.start\<close>; each call is also recorded in \<open>outcomes\<close>.
\<close>

definition stop :: "session \<Rightarrow> session" where
  "stop s =
     (let s1 = s\<lparr>alive := False\<rparr>;
          s2 = (if operationTimeout s1
                then s1\<lparr>operationTimerPending := False, operationTimeout := False\<rparr> else s1);
          s3 = (if reconnectTimeout s2
                then s2\<lparr>reconnectTimerPending := False, reconnectTimeout := False\<rparr> else s2)
      in if socket s3 then s3\<lparr>destroyed := Suc (destroyed s3), socket := False\<rparr> else s3)"

definition settle :: "promise_state \<Rightarrow> session \<Rightarrow> session" where
  "settle v s = (if promise s = Pending then s\<lparr>promise := v\<rparr> else s)"

definition safePrinterName :: "string \<Rightarrow> string" where
  "safePrinterName printerIp =
     map (\<lambda>c. if c = CHR ''.'' \<or> c = CHR '':'' then CHR ''_'' else c) printerIp"

definition on_resolve :: "buffer \<Rightarrow> session \<Rightarrow> session" where
  "on_resolve imageBuffer s =
     (let s0 = s\<lparr>outcomes := outcomes s @ [Success imageBuffer]\<rparr>;
          outputFilename = safePrinterName (hostname s0) @ ''.jpg'';
          fullImagePath = PathResolve (outputDir s0) outputFilename;
          s1 = (case (if \<not> existsSync (outputDir s0) (fs s0)
                      then mkdirSync (outputDir s0) (fs s0) else Inr (fs s0)) of
                  Inl e \<Rightarrow> settle (Rejected (Thrown e)) s0
                | Inr f1 \<Rightarrow>
                    (case writeFileSync fullImagePath imageBuffer f1 of
                       Inl e \<Rightarrow> settle (Rejected (Thrown e)) (s0\<lparr>fs := f1\<rparr>)
                     | Inr f2 \<Rightarrow> settle (Fulfilled (PathString fullImagePath)) (s0\<lparr>fs := f2\<rparr>)))
      in stop s1)"

definition on_reject :: "failure \<Rightarrow> session \<Rightarrow> session" where
  "on_reject err s =
     (let s0 = s\<lparr>outcomes := outcomes s @ [Failure err]\<rparr>;
          s1 = stop s0
      in settle (Rejected err) s1)"

subsection \<open>Connecting and reconnecting\<close>

text \<open>
  \<open>connect\<close> is \<open>_connect\<close> up to the call of \<open>tls.connect\<close>; the handlers it registers
  are the functions \<open>on_secureConnect\<close>, \<open>on_data\<close>, \<open>on_error\<close>, \<open>on_close\<close> and
  \<open>on_timeout\<close> below. An exception of \<open>_buildAuthData\<close> leaves \<open>_connect\<close> before the
  socket is created. \<open>scheduleReconnect\<close> is \<open>_scheduleReconnect\<close>.
\<close>

definition connect :: "session \<Rightarrow> session" where
  "connect s =
     (if \<not> alive s
      then (if \<not> hasResolvedOrRejected s
            then on_reject ConnectionAborted (s\<lparr>hasResolvedOrRejected := True\<rparr>)
            else s)
      else let s1 = s\<lparr>connectAttempts := connectAttempts s + 1\<rparr>
           in case buildAuthData s1 of
                Inl e \<Rightarrow> s1\<lparr>thrown := thrown s1 @ [e]\<rparr>
              | Inr authData \<Rightarrow> s1\<lparr>socket := True, tlsConnects := Suc (tlsConnects s1)\<rparr>)"

definition scheduleReconnect :: "session \<Rightarrow> session" where
  "scheduleReconnect s =
     (if \<not> alive s \<or> hasResolvedOrRejected s then s
      else let s1 = (if reconnectTimeout s then s\<lparr>reconnectTimerPending := False\<rparr> else s)
           in if connectAttempts s1 > 2
              then (if \<not> hasResolvedOrRejected s1
                    then on_reject (ConnectExhausted (connectAttempts s1))
                           (stop (s1\<lparr>hasResolvedOrRejected := True\<rparr>))
                    else s1)
              else let delay = 3000
                   in s1\<lparr>reconnectTimeout := True, reconnectTimerPending := True,
                         reconnectDelays := reconnectDelays s1 @ [delay]\<rparr>)"

definition start :: "session \<Rightarrow> session" where
  "start s =
     (if alive s
      then let s0 = s\<lparr>warnings := warnings s @ [StartWhileAlive]\<rparr>
           in if \<not> hasResolvedOrRejected s0
              then on_reject AlreadyInProgress (s0\<lparr>hasResolvedOrRejected := True\<rparr>)
              else s0
      else let s1 = s\<lparr>alive := True, hasResolvedOrRejected := False\<rparr>;
               s2 = (if timeoutMs s1 > 0
                     then s1\<lparr>operationTimeout := True, operationTimerPending := True\<rparr>
                     else s1)
           in connect s2)"

text \<open>
  The two timer callbacks. The runtime runs a callback only while its timer is pending,
  and a timer fires once.
\<close>

definition on_operationTimeout :: "session \<Rightarrow> session" where
  "on_operationTimeout s =
     (if operationTimerPending s
      then let s0 = s\<lparr>operationTimerPending := False\<rparr>
           in if \<not> hasResolvedOrRejected s0
              then on_reject (OperationTimedOut (timeoutMs s0))
                     (stop (s0\<lparr>hasResolvedOrRejected := True\<rparr>))
              else s0
      else s)"

definition on_reconnectTimeout :: "session \<Rightarrow> session" where
  "on_reconnectTimeout s =
     (if reconnectTimerPending s then connect (s\<lparr>reconnectTimerPending := False\<rparr>) else s)"

text \<open>
  The callback of \<open>tls.connect\<close>. A destroyed socket never completes its handshake, so
  the callback runs only while \<open>this.socket\<close> is set; \<open>authData\<close> is the record that
  \<open>_connect\<close> built for this socket.
\<close>

definition on_secureConnect :: "session \<Rightarrow> session" where
  "on_secureConnect s =
     (if socket s
      then case buildAuthData s of
             Inl e \<Rightarrow> s
           | Inr authData \<Rightarrow>
               s\<lparr>written := written s @ [authData], connectAttempts := 0,
                 currentFrameBuffer := Buffer_alloc 0, isReceivingImage := False,
                 expectedPayloadSize := 0\<rparr>
      else s)"

subsection \<open>The frame decoder\<close>

text \<open>
  The \<open>data\<close> handler. \<open>loop_body\<close> is one pass through the body of its \<open>while\<close> loop
  and says how the pass ends: at the end of the body (\<open>Continue\<close>), at a \<open>break\<close>, or at
  the \<open>return\<close> after a frame was accepted. \<open>payload_step\<close> is the second \<open>if\<close> of the
  body, \<open>is_jpeg\<close> the marker test on the payload, \<open>accept_frame\<close> the branch of a
  valid JPEG.
\<close>

datatype flow = Continue | Break | Return

definition accept_frame :: "buffer \<Rightarrow> session \<Rightarrow> session" where
  "accept_frame imageData s =
     (let s1 = s\<lparr>lastFrameData := Some imageData\<rparr>;
          s2 = (if \<not> hasResolvedOrRejected s1
                then let s3 = s1\<lparr>hasResolvedOrRejected := True\<rparr>;
                         s4 = (if operationTimeout s3
                               then s3\<lparr>operationTimerPending := False\<rparr> else s3)
                     in on_resolve imageData s4
                else s1)
      in stop s2)"

definition is_jpeg :: "buffer \<Rightarrow> bool" where
  "is_jpeg imageData =
     (length imageData > 0 \<and>
      subarray imageData 0 (int (length JPEG_START_MARKER)) = JPEG_START_MARKER \<and>
      subarray_from imageData (int (length imageData) - int (length JPEG_END_MARKER))
        = JPEG_END_MARKER)"

definition payload_step :: "session \<Rightarrow> flow \<times> session" where
  "payload_step s =
     (if isReceivingImage s
      then if length (currentFrameBuffer s) \<ge> expectedPayloadSize s
           then let imageData = subarray (currentFrameBuffer s) 0 (int (expectedPayloadSize s));
                    s1 = s\<lparr>currentFrameBuffer :=
                             subarray_from (currentFrameBuffer s) (int (expectedPayloadSize s)),
                           isReceivingImage := False\<rparr>
                in if is_jpeg imageData
                   then (Return, accept_frame imageData s1)
                   else let s2 = (if length imageData > 0
                                  then s1\<lparr>warnings := warnings s1 @ [NotValidJpeg]\<rparr> else s1)
                        in (Continue, s2\<lparr>expectedPayloadSize := 0\<rparr>)
           else (Break, s)
      else (Continue, s))"

definition loop_body :: "session \<Rightarrow> flow \<times> session" where
  "loop_body s =
     (if \<not> isReceivingImage s
      then if length (currentFrameBuffer s) \<ge> 16
           then case readUInt32LE (currentFrameBuffer s) 0 of
                  Inl e \<Rightarrow> (Return, s\<lparr>thrown := thrown s @ [e]\<rparr>)
                | Inr payloadSize \<Rightarrow>
                    let s1 = s\<lparr>expectedPayloadSize := payloadSize,
                               currentFrameBuffer := subarray_from (currentFrameBuffer s) 16,
                               isReceivingImage := True\<rparr>;
                        s2 = (if expectedPayloadSize s1 = 0 \<or>
                                 expectedPayloadSize s1 > 15 * 1024 * 1024
                              then s1\<lparr>warnings := warnings s1 @
                                        [InvalidPayloadSize (expectedPayloadSize s1)],
                                      isReceivingImage := False,
                                      currentFrameBuffer := Buffer_alloc 0\<rparr>
                              else s1)
                    in payload_step s2
           else (Break, s)
      else payload_step s)"

definition loop_cond :: "session \<Rightarrow> bool" where
  "loop_cond s =
     (length (currentFrameBuffer s) > 0 \<and> alive s \<and> \<not> hasResolvedOrRejected s)"

function drain :: "session \<Rightarrow> session" where
  "drain s =
     (if loop_cond s
      then (if fst (loop_body s) = Continue then drain (snd (loop_body s))
            else snd (loop_body s))
      else s)"
  by pat_completeness auto
termination
proof (relation "measure (\<lambda>s. 2 * length (currentFrameBuffer s) +
                              (if isReceivingImage s then 1 else 0))")
  show "wf (measure (\<lambda>s. 2 * length (currentFrameBuffer s) +
                           (if isReceivingImage s then 1 else 0)))"
    by simp
next
  fix s
  assume c: "loop_cond s" and k: "fst (loop_body s) = Continue"
  let ?mu = "\<lambda>s. 2 * length (currentFrameBuffer s) +
                  (if isReceivingImage s then 1 else (0::nat))"
  have sub: "length (subarray_from b (int n)) = length b - n" for b n
    by (simp add: subarray_from_def subarray_def clamp_index_def Let_def)
  have ps: "?mu (snd (payload_step t)) \<le> ?mu t \<and>
            (isReceivingImage t \<longrightarrow> ?mu (snd (payload_step t)) < ?mu t)"
    if "fst (payload_step t) = Continue" for t
  proof (cases "isReceivingImage t \<and> expectedPayloadSize t \<le> length (currentFrameBuffer t)")
    case False
    then show ?thesis using that by (auto simp: payload_step_def)
  next
    case True
    then have "\<not> is_jpeg (subarray (currentFrameBuffer t) 0 (int (expectedPayloadSize t)))"
      using that by (auto simp: payload_step_def Let_def)
    then show ?thesis using True by (auto simp: payload_step_def Let_def sub)
  qed
  have "?mu (snd (loop_body s)) < ?mu s"
  proof (cases "isReceivingImage s")
    case True
    then show ?thesis using k ps [of s] by (simp add: loop_body_def)
  next
    case nr: False
    show ?thesis
    proof (cases "length (currentFrameBuffer s) \<ge> 16")
      case False
      then show ?thesis using k nr by (simp add: loop_body_def)
    next
      case True
      then obtain v where v: "readUInt32LE (currentFrameBuffer s) 0 = Inr v"
        by (simp add: readUInt32LE_def)
      define s1 where "s1 = s\<lparr>expectedPayloadSize := v,
                 currentFrameBuffer := subarray_from (currentFrameBuffer s) 16,
                 isReceivingImage := True\<rparr>"
      define s2 where "s2 = (if v = 0 \<or> v > 15 * 1024 * 1024
         then s1\<lparr>warnings := warnings s1 @ [InvalidPayloadSize v],
                 isReceivingImage := False, currentFrameBuffer := Buffer_alloc 0\<rparr>
         else s1)"
      have lb: "loop_body s = payload_step s2"
        using nr True v by (simp add: loop_body_def s2_def s1_def Let_def)
      have "?mu s2 < ?mu s"
        using True nr sub [of "currentFrameBuffer s" 16]
        by (auto simp: s2_def s1_def Buffer_alloc_def)
      then show ?thesis using k ps [of s2] lb by simp
    qed
  qed
  then show "(snd (loop_body s), s) \<in> measure (\<lambda>s. 2 * length (currentFrameBuffer s) +
                                                       (if isReceivingImage s then 1 else 0))"
    by simp
qed

declare drain.simps [simp del]

definition on_data :: "buffer \<Rightarrow> session \<Rightarrow> session" where
  "on_data data s =
     (if \<not> alive s \<or> hasResolvedOrRejected s then s
      else drain (s\<lparr>currentFrameBuffer := currentFrameBuffer s @ data\<rparr>))"

subsection \<open>The other socket handlers\<close>

definition on_error :: "string \<Rightarrow> session \<Rightarrow> session" where
  "on_error code s =
     (if hasResolvedOrRejected s \<and> (code = ''ECONNRESET'' \<or> code = ''ERR_STREAM_DESTROYED'')
      then s
      else let s1 = (if socket s then s\<lparr>destroyed := Suc (destroyed s)\<rparr> else s)
           in if alive s1 \<and> \<not> hasResolvedOrRejected s1 then scheduleReconnect s1
              else if \<not> hasResolvedOrRejected s1
                   then on_reject (SocketFailure code) (s1\<lparr>hasResolvedOrRejected := True\<rparr>)
                   else s1)"

definition on_close :: "bool \<Rightarrow> session \<Rightarrow> session" where
  "on_close hadError s =
     (if alive s \<and> \<not> hasResolvedOrRejected s then scheduleReconnect s
      else if \<not> alive s \<and> \<not> hasResolvedOrRejected s \<and> hadError
           then on_reject ClosedUnexpectedly (s\<lparr>hasResolvedOrRejected := True\<rparr>)
           else s)"

definition on_timeout :: "session \<Rightarrow> session" where
  "on_timeout s =
     (let s0 = s\<lparr>warnings := warnings s @ [SocketTimeoutWarning]\<rparr>
      in if socket s0 then s0\<lparr>destroyed := Suc (destroyed s0)\<rparr> else s0)"

subsection \<open>Events and runs\<close>

text \<open>
  After \<open>start\<close>, the session only moves when the runtime calls one of its handlers or
  the caller calls \<open>stop\<close>. \<open>run\<close> applies a sequence of such events in order. The
  socket events may come from any socket the session has opened, also from one it has
  replaced or destroyed, so a run may contain them in any order; only the two timer
  callbacks and the callback of \<open>tls.connect\<close> are tied to a condition of the runtime,
  which their handlers test. \<open>start\<close> is not an event: the public operation calls it
  once, on a camera that nobody else holds.
\<close>

datatype event =
    SecureConnect
  | Data buffer
  | SocketError string
  | SocketClose bool
  | SocketTimeout
  | OperationTimerFires
  | ReconnectTimerFires
  | Stop

fun step :: "event \<Rightarrow> session \<Rightarrow> session" where
  "step SecureConnect s = on_secureConnect s"
| "step (Data d) s = on_data d s"
| "step (SocketError code) s = on_error code s"
| "step (SocketClose hadError) s = on_close hadError s"
| "step SocketTimeout s = on_timeout s"
| "step OperationTimerFires s = on_operationTimeout s"
| "step ReconnectTimerFires s = on_reconnectTimeout s"
| "step Stop s = stop s"

fun run :: "event list \<Rightarrow> session \<Rightarrow> session" where
  "run [] s = s"
| "run (e # es) s = run es (step e s)"

subsection \<open>The public operation\<close>

text \<open>
  \<open>new_PrinterCameraNode\<close> is the constructor, together with the pending promise and the
  file system the operation runs in. \<open>captureSingleFrameFromPrinter\<close> is the promise
  executor up to the return of \<open>camera.start\<close>: an exception out of \<open>start\<close> rejects the
  promise, as the promise constructor does.
\<close>

record options =
  opt_port :: "nat option"
  opt_username :: "string option"
  opt_outputDir :: "string option"
  opt_timeoutMs :: "int option"

definition new_PrinterCameraNode ::
  "string \<Rightarrow> string \<Rightarrow> nat \<Rightarrow> string \<Rightarrow> int \<Rightarrow> string \<Rightarrow> filesystem \<Rightarrow> session" where
  "new_PrinterCameraNode host code p user tmo dir f =
     \<lparr>hostname = host, accessCode = code, port = p, username = user, timeoutMs = tmo,
      outputDir = dir, lastFrameData = None, alive = False, socket = False,
      reconnectTimeout = False, currentFrameBuffer = Buffer_alloc 0,
      expectedPayloadSize = 0, isReceivingImage = False, connectAttempts = 0,
      operationTimeout = False, hasResolvedOrRejected = False,
      operationTimerPending = False, reconnectTimerPending = False,
      outcomes = [], promise = Pending, fs = f, written = [], tlsConnects = 0,
      destroyed = 0, reconnectDelays = [], warnings = [], thrown = []\<rparr>"

definition captureSingleFrameFromPrinter ::
  "string \<Rightarrow> string \<Rightarrow> options \<Rightarrow> string \<Rightarrow> filesystem \<Rightarrow> session" where
  "captureSingleFrameFromPrinter printerIp code opts cwd f =
     (let p = (case opt_port opts of None \<Rightarrow> 6000 | Some v \<Rightarrow> v);
          user = (case opt_username opts of None \<Rightarrow> ''bblp'' | Some v \<Rightarrow> v);
          dir = (case opt_outputDir opts of None \<Rightarrow> cwd | Some v \<Rightarrow> v);
          tmo = (case opt_timeoutMs opts of None \<Rightarrow> 30000 | Some v \<Rightarrow> v);
          camera = new_PrinterCameraNode printerIp code p user tmo dir f
      in if printerIp = [] \<or> code = []
         then settle (Rejected MissingCredential) camera
         else let s = start camera
              in case thrown s of [] \<Rightarrow> s | e # es \<Rightarrow> settle (Rejected (Thrown e)) s)"

subsection \<open>Notions used in the statements\<close>

text \<open>
  \<open>auth_layout\<close> spells out the 80 bytes of the authentication record: the magic
  \<open>0x40\<close> and the message type \<open>0x3000\<close> as 32-bit little-endian values, eight zero
  bytes, then the user name and the access code, each padded with zeros to 32 bytes.
\<close>

definition auth_header :: buffer where
  "auth_header = [0x40, 0, 0, 0, 0, 0x30, 0, 0]"

definition auth_layout :: "string \<Rightarrow> string \<Rightarrow> buffer" where
  "auth_layout user code =
     auth_header @ replicate 8 0 @
     map of_char user @ replicate (32 - length user) 0 @
     map of_char code @ replicate (32 - length code) 0"

text \<open>
  \<open>is_timeout\<close> and \<open>frame_or_exhausted\<close> classify the results a session can settle
  with. \<open>saved_path\<close> is the file the public operation writes the frame to.
\<close>

definition is_timeout :: "capture_result \<Rightarrow> bool" where
  "is_timeout r = (case r of Failure (OperationTimedOut t) \<Rightarrow> True | _ \<Rightarrow> False)"

definition frame_or_exhausted :: "capture_result \<Rightarrow> bool" where
  "frame_or_exhausted r =
     (case r of Success img \<Rightarrow> True | Failure (ConnectExhausted n) \<Rightarrow> True | _ \<Rightarrow> False)"

definition saved_path :: "session \<Rightarrow> fullpath" where
  "saved_path s = PathResolve (outputDir s) (safePrinterName (hostname s) @ ''.jpg'')"

text \<open>
  \<open>invalid_headers\<close> counts the invalid-size warnings a session has logged, that is, how
  often the decoder has met a header with a length of 0 or above 15 MiB.
  \<open>append_buffer\<close> appends bytes to the accumulation buffer, as the \<open>data\<close> handler does
  before it decodes.
\<close>

definition is_invalid_size :: "warning \<Rightarrow> bool" where
  "is_invalid_size w = (case w of InvalidPayloadSize v \<Rightarrow> True | _ \<Rightarrow> False)"

definition invalid_headers :: "session \<Rightarrow> nat" where
  "invalid_headers s = length (filter is_invalid_size (warnings s))"

definition append_buffer :: "buffer \<Rightarrow> session \<Rightarrow> session" where
  "append_buffer b s = s\<lparr>currentFrameBuffer := currentFrameBuffer s @ b\<rparr>"





text \<open>
  A sample request, the session it starts, the same session once the TLS handshake is
  done, and one unit of the stream: a header declaring 10 bytes and a 10-byte JPEG.
\<close>

definition sample_fs :: filesystem where
  "sample_fs = \<lparr>dirs = [], files = [], fault = None\<rparr>"

definition sample_camera :: session where
  "sample_camera =
     new_PrinterCameraNode ''192.168.1.50'' ''12345678'' 6000 ''bblp'' 30000 ''/tmp/img'' sample_fs"

definition sample_streaming :: session where
  "sample_streaming = run [SecureConnect] (start sample_camera)"

definition sample_jpeg :: buffer where
  "sample_jpeg = [0xff, 0xd8, 0xff, 0xe0, 1, 2, 3, 4, 0xff, 0xd9]"

definition sample_unit :: buffer where
  "sample_unit = le32 10 @ replicate 12 0 @ sample_jpeg"

text \<open>
  The options of the sample request, and the session the public operation starts for
  it.
\<close>

definition sample_options :: options where
  "sample_options = \<lparr>opt_port = None, opt_username = None,
                      opt_outputDir = Some ''/tmp/img'', opt_timeoutMs = None\<rparr>"

definition sample_session :: session where
  "sample_session =
     captureSingleFrameFromPrinter ''192.168.1.50'' ''12345678'' sample_options ''/home/bot'' sample_fs"

text \<open>
  The same request with the operation timeout switched off.
\<close>

definition sample_options_no_timeout :: options where
  "sample_options_no_timeout = sample_options\<lparr>opt_timeoutMs := Some 0\<rparr>"

subsection \<open>Notions used in the proofs\<close>

text \<open>
  \<open>set_decoder\<close> overwrites the four fields that the decoder loop changes while no frame
  is accepted. \<open>accepted\<close> is the state after a frame is accepted, with the promise and
  the file system left by the \<open>resolve\<close> callback. A session is \<open>stopped\<close> when \<open>stop\<close>
  has nothing left to do. \<open>session_inv\<close> holds in every state a session reaches: a
  settled or dead session is stopped, a pending timer has its handle in the field, and
  a callback was called at most once and only together with the flag.
\<close>

definition set_decoder :: "buffer \<Rightarrow> nat \<Rightarrow> bool \<Rightarrow> warning list \<Rightarrow> session \<Rightarrow> session" where
  "set_decoder b e r w s =
     s\<lparr>currentFrameBuffer := b, expectedPayloadSize := e, isReceivingImage := r, warnings := w\<rparr>"

definition accepted :: "buffer \<Rightarrow> promise_state \<Rightarrow> filesystem \<Rightarrow> session \<Rightarrow> session" where
  "accepted img p f s =
     stop (s\<lparr>lastFrameData := Some img, hasResolvedOrRejected := True,
             operationTimerPending := operationTimerPending s \<and> \<not> operationTimeout s,
             outcomes := outcomes s @ [Success img], promise := p, fs := f\<rparr>)"

definition stopped :: "session \<Rightarrow> bool" where
  "stopped s = (\<not> alive s \<and> \<not> operationTimeout s \<and> \<not> reconnectTimeout s \<and> \<not> socket s \<and>
                \<not> operationTimerPending s \<and> \<not> reconnectTimerPending s)"

definition session_inv :: "session \<Rightarrow> bool" where
  "session_inv s =
     ((hasResolvedOrRejected s \<or> \<not> alive s \<longrightarrow> stopped s) \<and>
      (operationTimerPending s \<longrightarrow> operationTimeout s) \<and>
      (reconnectTimerPending s \<longrightarrow> reconnectTimeout s) \<and>
      length (outcomes s) \<le> 1 \<and>
      (outcomes s \<noteq> [] \<longrightarrow> hasResolvedOrRejected s))"

text \<open>
  \<open>no_timer\<close> holds throughout a session started without an operation timeout, and
  \<open>waiting\<close> as long as nobody calls \<open>stop\<close> from outside. \<open>attempts_inv\<close> holds as long as
  no handshake completes. \<open>ready k\<close> describes the session right after its \<open>k\<close>-th
  failed attempt was started, \<open>connecting k\<close> the session right after its \<open>k\<close>-th call of
  \<open>tls.connect\<close>, whatever became of the connections before.
\<close>

definition no_timer :: "session \<Rightarrow> bool" where
  "no_timer s =
     (\<not> operationTimerPending s \<and> \<not> operationTimeout s \<and>
      list_all (\<lambda>r. \<not> is_timeout r) (outcomes s) \<and>
      (case promise s of Rejected (OperationTimedOut t) \<Rightarrow> False | _ \<Rightarrow> True))"

definition waiting :: "session \<Rightarrow> bool" where
  "waiting s = ((alive s \<or> hasResolvedOrRejected s) \<and> \<not> operationTimerPending s \<and>
                 list_all frame_or_exhausted (outcomes s))"





definition header_read :: "nat \<Rightarrow> session \<Rightarrow> session" where
  "header_read v s =
     s\<lparr>expectedPayloadSize := v, currentFrameBuffer := drop 16 (currentFrameBuffer s),
        isReceivingImage := True\<rparr>"

definition header_dropped :: "nat \<Rightarrow> session \<Rightarrow> session" where
  "header_dropped v s =
     s\<lparr>expectedPayloadSize := v, currentFrameBuffer := [], isReceivingImage := False,
        warnings := warnings s @ [InvalidPayloadSize v]\<rparr>"

definition payload_taken :: "session \<Rightarrow> session" where
  "payload_taken s =
     s\<lparr>currentFrameBuffer := drop (expectedPayloadSize s) (currentFrameBuffer s),
        isReceivingImage := False\<rparr>"

definition payload_rejected :: "session \<Rightarrow> session" where
  "payload_rejected s =
     s\<lparr>currentFrameBuffer := drop (expectedPayloadSize s) (currentFrameBuffer s),
        isReceivingImage := False,
        warnings := (if expectedPayloadSize s > 0 \<and> currentFrameBuffer s \<noteq> []
                     then warnings s @ [NotValidJpeg] else warnings s),
        expectedPayloadSize := 0\<rparr>"

section \<open>Basic facts\<close>

subsection \<open>Buffers and the JPEG test\<close>

lemma subarray_take [simp]: "subarray b 0 (int n) = take n b"
  by (simp add: subarray_def clamp_index_def Let_def min_def)

lemma subarray_from_drop [simp]: "subarray_from b (int n) = drop n b"
  by (simp add: subarray_from_def subarray_def clamp_index_def Let_def min_def)

lemma subarray_from_16 [simp]: "subarray_from b 16 = drop 16 b"
  using subarray_from_drop [of b 16] by simp

lemma is_jpeg_iff:
  "is_jpeg img \<longleftrightarrow> take 4 img = [0xff, 0xd8, 0xff, 0xe0] \<and> drop (length img - 2) img = [0xff, 0xd9]"
proof (cases "length img \<ge> 2")
  case True
  then have e: "int (length img) - 2 = int (length img - 2)" by simp
  have "subarray_from img (int (length img) - 2) = drop (length img - 2) img"
    unfolding e by (rule subarray_from_drop)
  moreover have "subarray img 0 4 = take 4 img"
    using subarray_take [of img 4] by simp
  ultimately show ?thesis using True
    by (auto simp: is_jpeg_def JPEG_START_MARKER_def JPEG_END_MARKER_def)
next
  case False
  then have l: "length img < 2" by simp
  have "subarray img 0 4 = take 4 img"
    using subarray_take [of img 4] by simp
  then have a: "\<not> is_jpeg img" using l
    by (auto simp: is_jpeg_def JPEG_START_MARKER_def)
  have "take 4 img \<noteq> [0xff, 0xd8, 0xff, 0xe0]"
  proof
    assume "take 4 img = [0xff, 0xd8, 0xff, 0xe0]"
    then have "length (take 4 img) = 4" by simp
    then show False using l by simp
  qed
  then show ?thesis using a by simp
qed

lemma is_jpeg_Nil [simp]: "\<not> is_jpeg []"
  by (simp add: is_jpeg_iff)

lemma le32_inverse:
  assumes "v < 2 ^ 32"
  shows "readUInt32LE (le32 v @ rest) 0 = Inr v"
proof -
  have u: "unat (of_nat n :: byte) = n mod 256" for n
    by (simp add: unat_of_nat)
  have "v mod 256 + 256 * (v div 256 mod 256) + 65536 * (v div 65536 mod 256) +
        16777216 * (v div 16777216 mod 256) = v"
  proof -
    have a: "v div 16777216 mod 256 = v div 16777216" using assms by simp
    have b: "v div 65536 = 256 * (v div 16777216) + v div 65536 mod 256"
    proof -
      have "v div 16777216 = v div 65536 div 256" by (simp add: div_mult2_eq)
      then show ?thesis by simp
    qed
    have c: "v div 256 = 256 * (v div 65536) + v div 256 mod 256"
    proof -
      have "v div 65536 = v div 256 div 256" by (simp add: div_mult2_eq)
      then show ?thesis by simp
    qed
    have d: "v = 256 * (v div 256) + v mod 256" by simp
    show ?thesis using a b c d by linarith
  qed
  moreover have "readUInt32LE (le32 v @ rest) 0 =
     Inr (v mod 256 + 256 * (v div 256 mod 256) + 65536 * (v div 65536 mod 256) +
        16777216 * (v div 16777216 mod 256))"
    unfolding readUInt32LE_def le32_def by (simp add: u del: mod_less)
  ultimately show ?thesis by (simp only:)
qed

subsection \<open>The authentication record\<close>

lemma pad_loop_zero:
  "i \<le> 32 \<Longrightarrow> offset + (32 - i) \<le> length buf \<Longrightarrow>
   \<forall>k. offset \<le> k \<and> k < offset + (32 - i) \<longrightarrow> buf ! k = 0 \<Longrightarrow>
   pad_loop i offset buf = Inr (offset + (32 - i), buf)"
proof (induction i offset buf rule: pad_loop.induct)
  case (1 i offset buf)
  show ?case
  proof (cases "i < 32")
    case True
    have z: "buf ! offset = 0" using 1(4) True by simp
    have w: "writeUInt8 0 offset buf = Inr buf"
      using 1(3) True z by (simp add: writeUInt8_def list_update_same_conv)
    have a: "i + 1 \<le> 32" using True by simp
    have b: "offset + 1 + (32 - (i + 1)) \<le> length buf" using 1(3) True by simp
    have c: "\<forall>k. offset + 1 \<le> k \<and> k < offset + 1 + (32 - (i + 1)) \<longrightarrow> buf ! k = 0"
      using 1(4) True by auto
    have e: "offset + 1 + (32 - (i + 1)) = offset + (32 - i)" using True by simp
    have "pad_loop (i + 1) (offset + 1) buf = Inr (offset + 1 + (32 - (i + 1)), buf)"
      using 1(1)[OF True a b c] .
    then show ?thesis
      using True w e by (subst pad_loop.simps) (simp add: bind_err_def)
  next
    case False
    then show ?thesis using 1(2) by (subst pad_loop.simps) simp
  qed
qed

lemma header_writes:
  "bind_err (writeUInt32LE 0x40 0 (Buffer_alloc 80)) (\<lambda>b1.
   bind_err (writeUInt32LE 0x3000 4 b1) (\<lambda>b2.
   bind_err (writeUInt32LE 0 8 b2) (\<lambda>b3.
   bind_err (writeUInt32LE 0 12 b3) f))) = f (auth_header @ replicate 72 0)"
proof -
  have r: "replicate 80 (0::byte) = [0,0,0,0] @ [0,0,0,0] @ [0,0,0,0] @ [0,0,0,0] @ replicate 64 0"
    by (simp add: numeral_eq_Suc)
  have r2: "replicate 72 (0::byte) = [0,0,0,0] @ [0,0,0,0] @ replicate 64 0"
    by (simp add: numeral_eq_Suc)
  show ?thesis
    unfolding Buffer_alloc_def r r2
    by (simp add: writeUInt32LE_def le32_def bind_err_def auth_header_def)
qed

lemma copy_zero_tail:
  "length pre = n \<Longrightarrow> length src \<le> m \<Longrightarrow>
   Buffer_copy src (pre @ replicate m 0) n = pre @ src @ replicate (m - length src) 0"
  by (cases "m = 0") (auto simp: Buffer_copy_def min_def)

lemma buildAuthData_layout:
  assumes u: "length (username s) \<le> 32" and a: "length (accessCode s) \<le> 32"
  shows "buildAuthData s = Inr (auth_layout (username s) (accessCode s))"
proof -
  let ?u = "Buffer_from_ascii (username s)" and ?a = "Buffer_from_ascii (accessCode s)"
  have lu: "length ?u = length (username s)" and la: "length ?a = length (accessCode s)"
    by (simp_all add: Buffer_from_ascii_def)
  have c1: "Buffer_copy ?u (auth_header @ replicate 72 0) 16 = (auth_header @ replicate 8 0) @ ?u @ replicate (64 - length ?u) 0"
  proof -
    have "auth_header @ replicate 72 0 = (auth_header @ replicate 8 0) @ replicate 64 0"
      by (simp flip: replicate_add)
    moreover have "length (auth_header @ replicate 8 0) = 16" by (simp add: auth_header_def)
    ultimately show ?thesis using copy_zero_tail[of "auth_header @ replicate 8 0" 16 ?u 64] u lu by simp
  qed
  let ?b1 = "(auth_header @ replicate 8 0) @ ?u @ replicate (64 - length ?u) 0"
  have p1: "pad_loop (length ?u) (16 + length ?u) ?b1 = Inr (48, ?b1)"
  proof -
    have "pad_loop (length ?u) (16 + length ?u) ?b1 = Inr (16 + length ?u + (32 - length ?u), ?b1)"
    proof (rule pad_loop_zero)
      show "length ?u \<le> 32" using u lu by simp
      show "16 + length ?u + (32 - length ?u) \<le> length ?b1" using u lu by (simp add: auth_header_def)
      show "\<forall>k. 16 + length ?u \<le> k \<and> k < 16 + length ?u + (32 - length ?u) \<longrightarrow> ?b1 ! k = 0"
        using u lu by (auto simp: nth_append auth_header_def)
    qed
    then show ?thesis using u lu by simp
  qed
  let ?pre = "(auth_header @ replicate 8 0) @ ?u @ replicate (32 - length ?u) 0"
  have b1: "?b1 = ?pre @ replicate 32 0"
  proof -
    have "replicate (64 - length ?u) (0::byte) = replicate (32 - length ?u) 0 @ replicate 32 0"
      using u lu by (simp flip: replicate_add)
    then show ?thesis by simp
  qed
  have c2: "Buffer_copy ?a ?b1 48 = ?pre @ ?a @ replicate (32 - length ?a) 0"
    unfolding b1 using a la u lu by (intro copy_zero_tail) (simp_all add: auth_header_def)
  let ?b2 = "?pre @ ?a @ replicate (32 - length ?a) 0"
  have p2: "pad_loop (length ?a) (48 + length ?a) ?b2 = Inr (80, ?b2)"
  proof -
    have "pad_loop (length ?a) (48 + length ?a) ?b2 = Inr (48 + length ?a + (32 - length ?a), ?b2)"
    proof (rule pad_loop_zero)
      show "length ?a \<le> 32" using a la by simp
      show "48 + length ?a + (32 - length ?a) \<le> length ?b2" using u lu a la by (simp add: auth_header_def)
      show "\<forall>k. 48 + length ?a \<le> k \<and> k < 48 + length ?a + (32 - length ?a) \<longrightarrow> ?b2 ! k = 0"
        using u lu a la by (auto simp: nth_append auth_header_def)
    qed
    then show ?thesis using a la by simp
  qed
  have "buildAuthData s =
          bind_err (pad_loop (length ?u) (16 + length ?u) (Buffer_copy ?u (auth_header @ replicate 72 0) 16))
            (\<lambda>(offset, authBuffer).
               bind_err (pad_loop (length ?a) (offset + length ?a) (Buffer_copy ?a authBuffer offset))
                 (\<lambda>(offset, authBuffer). Inr authBuffer))"
    unfolding buildAuthData_def Let_def by (simp add: header_writes)
  then have "buildAuthData s = Inr ?b2"
    using c1 p1 c2 p2 by (simp add: bind_err_def)
  moreover have "?b2 = auth_layout (username s) (accessCode s)"
    by (simp add: auth_layout_def auth_header_def Buffer_from_ascii_def)
  ultimately show ?thesis by simp
qed

subsection \<open>Stopping and settling\<close>

lemma stop_eq:
  "stop s = s\<lparr>alive := False,
              operationTimerPending := operationTimerPending s \<and> \<not> operationTimeout s,
              operationTimeout := False,
              reconnectTimerPending := reconnectTimerPending s \<and> \<not> reconnectTimeout s,
              reconnectTimeout := False,
              destroyed := (if socket s then Suc (destroyed s) else destroyed s),
              socket := False\<rparr>"
  by (cases s) (simp add: stop_def Let_def)

lemma settle_eq:
  "settle v s = s\<lparr>promise := (if promise s = Pending then v else promise s)\<rparr>"
  by (cases s) (simp add: settle_def)

lemma on_reject_eq:
  "on_reject err s = settle (Rejected err) (stop (s\<lparr>outcomes := outcomes s @ [Failure err]\<rparr>))"
  by (simp add: on_reject_def Let_def)

lemma stop_stop: "stop (stop s) = stop s"
  by (cases s) (simp add: stop_eq)

lemma on_resolve_frame:
  "\<exists>f p. on_resolve img s = stop (s\<lparr>outcomes := outcomes s @ [Success img], promise := p, fs := f\<rparr>)"
proof -
  let ?s0 = "s\<lparr>outcomes := outcomes s @ [Success img]\<rparr>"
  have a: "\<exists>f p. settle v (?s0\<lparr>fs := g\<rparr>) = s\<lparr>outcomes := outcomes s @ [Success img], promise := p, fs := f\<rparr>" for v g
    by (cases s) (simp add: settle_eq)
  have b: "\<exists>f p. settle v ?s0 = s\<lparr>outcomes := outcomes s @ [Success img], promise := p, fs := f\<rparr>" for v
    using a [of v "fs s"] by simp
  show ?thesis
    unfolding on_resolve_def Let_def
    using a b by (auto split: sum.splits simp del: fun_upd_apply) metis+
qed

lemma accept_frame_frame:
  assumes "\<not> hasResolvedOrRejected s"
  shows "\<exists>f p. accept_frame img s =
           stop (s\<lparr>lastFrameData := Some img, hasResolvedOrRejected := True,
                   operationTimerPending := operationTimerPending s \<and> \<not> operationTimeout s,
                   outcomes := outcomes s @ [Success img], promise := p, fs := f\<rparr>)"
proof -
  let ?s4 = "s\<lparr>lastFrameData := Some img, hasResolvedOrRejected := True,
                operationTimerPending := operationTimerPending s \<and> \<not> operationTimeout s\<rparr>"
  have e: "accept_frame img s = stop (on_resolve img ?s4)"
    using assms by (cases s) (simp add: accept_frame_def Let_def)
  obtain f p where "on_resolve img ?s4 = stop (?s4\<lparr>outcomes := outcomes ?s4 @ [Success img], promise := p, fs := f\<rparr>)"
    using on_resolve_frame [of img ?s4] by blast
  then have "accept_frame img s = stop (?s4\<lparr>outcomes := outcomes ?s4 @ [Success img], promise := p, fs := f\<rparr>)"
    using e by (simp add: stop_stop)
  then show ?thesis by (intro exI [of _ f] exI [of _ p]) simp
qed

subsection \<open>One pass of the decoder loop\<close>

lemma ps_idle: "\<not> isReceivingImage s \<Longrightarrow> payload_step s = (Continue, s)"
  by (simp add: payload_step_def)

lemma ps_short:
  "isReceivingImage s \<Longrightarrow> length (currentFrameBuffer s) < expectedPayloadSize s \<Longrightarrow>
   payload_step s = (Break, s)"
  by (simp add: payload_step_def)

lemma ps_accept:
  "isReceivingImage s \<Longrightarrow> expectedPayloadSize s \<le> length (currentFrameBuffer s) \<Longrightarrow>
   is_jpeg (take (expectedPayloadSize s) (currentFrameBuffer s)) \<Longrightarrow>
   payload_step s =
     (Return, accept_frame (take (expectedPayloadSize s) (currentFrameBuffer s))
        (s\<lparr>currentFrameBuffer := drop (expectedPayloadSize s) (currentFrameBuffer s),
            isReceivingImage := False\<rparr>))"
  by (simp add: payload_step_def Let_def)

lemma ps_reject:
  "isReceivingImage s \<Longrightarrow> expectedPayloadSize s \<le> length (currentFrameBuffer s) \<Longrightarrow>
   \<not> is_jpeg (take (expectedPayloadSize s) (currentFrameBuffer s)) \<Longrightarrow>
   payload_step s =
     (Continue,
      s\<lparr>currentFrameBuffer := drop (expectedPayloadSize s) (currentFrameBuffer s),
         isReceivingImage := False,
         warnings := (if expectedPayloadSize s > 0 \<and> currentFrameBuffer s \<noteq> []
                      then warnings s @ [NotValidJpeg] else warnings s),
         expectedPayloadSize := 0\<rparr>)"
  by (cases s) (auto simp: payload_step_def Let_def)

lemma lb_receiving: "isReceivingImage s \<Longrightarrow> loop_body s = payload_step s"
  by (simp add: loop_body_def)

lemma lb_short:
  "\<not> isReceivingImage s \<Longrightarrow> length (currentFrameBuffer s) < 16 \<Longrightarrow> loop_body s = (Break, s)"
  by (simp add: loop_body_def)

lemma read_header: "16 \<le> length b \<Longrightarrow> \<exists>v. readUInt32LE b 0 = Inr v"
  by (simp add: readUInt32LE_def)

lemma lb_bad:
  "\<not> isReceivingImage s \<Longrightarrow> 16 \<le> length (currentFrameBuffer s) \<Longrightarrow>
   readUInt32LE (currentFrameBuffer s) 0 = Inr v \<Longrightarrow> v = 0 \<or> 15728640 < v \<Longrightarrow>
   loop_body s =
     (Continue, s\<lparr>expectedPayloadSize := v, currentFrameBuffer := [], isReceivingImage := False,
                   warnings := warnings s @ [InvalidPayloadSize v]\<rparr>)"
  by (cases s) (auto simp: loop_body_def Let_def Buffer_alloc_def ps_idle)

lemma lb_good:
  "\<not> isReceivingImage s \<Longrightarrow> 16 \<le> length (currentFrameBuffer s) \<Longrightarrow>
   readUInt32LE (currentFrameBuffer s) 0 = Inr v \<Longrightarrow> 0 < v \<Longrightarrow> v \<le> 15728640 \<Longrightarrow>
   loop_body s =
     payload_step (s\<lparr>expectedPayloadSize := v,
                     currentFrameBuffer := drop 16 (currentFrameBuffer s),
                     isReceivingImage := True\<rparr>)"
  by (simp add: loop_body_def Let_def)

lemma drain_done: "\<not> loop_cond s \<Longrightarrow> drain s = s"
  by (subst drain.simps) simp

lemma drain_continue:
  "loop_cond s \<Longrightarrow> loop_body s = (Continue, s') \<Longrightarrow> drain s = drain s'"
  by (subst drain.simps) simp

lemma drain_exit:
  "loop_cond s \<Longrightarrow> loop_body s = (f, s') \<Longrightarrow> f \<noteq> Continue \<Longrightarrow> drain s = s'"
  by (subst drain.simps) simp

lemma on_data_exact_unit_state:
  assumes live: "alive s" "\<not> hasResolvedOrRejected s"
    and fresh: "\<not> isReceivingImage s" "currentFrameBuffer s = []"
    and L: "0 < L" "L \<le> 15 * 1024 * 1024"
    and hdr: "length reserved = 12"
    and pay: "length payload = L" "take 4 payload = [0xff, 0xd8, 0xff, 0xe0]"
             "drop (L - 2) payload = [0xff, 0xd9]"
  shows "on_data (le32 L @ reserved @ payload @ trailing) s =
           accept_frame payload
             (s\<lparr>expectedPayloadSize := L, currentFrameBuffer := trailing,
                isReceivingImage := False\<rparr>)"
proof -
  let ?data = "le32 L @ reserved @ payload @ trailing"
  define s0 where "s0 = s\<lparr>currentFrameBuffer := currentFrameBuffer s @ ?data\<rparr>"
  define s1 where "s1 = s0\<lparr>expectedPayloadSize := L,
                  currentFrameBuffer := drop 16 (currentFrameBuffer s0),
                  isReceivingImage := True\<rparr>"
  have l4: "length (le32 L) = 4" by (simp add: le32_def)
  have buf0: "currentFrameBuffer s0 = ?data" using fresh by (simp add: s0_def)
  have d16: "drop 16 ?data = payload @ trailing" using l4 hdr by simp
  have od: "on_data ?data s = drain s0" using live by (simp add: on_data_def s0_def)
  have lc: "loop_cond s0" using live l4 by (simp add: loop_cond_def buf0) (simp add: s0_def)
  have "L < 2 ^ 32" using L by simp
  then have rd: "readUInt32LE (currentFrameBuffer s0) 0 = Inr L"
    unfolding buf0 by (rule le32_inverse)
  have nr0: "\<not> isReceivingImage s0" using fresh by (simp add: s0_def)
  have len0: "16 \<le> length (currentFrameBuffer s0)" unfolding buf0 using l4 hdr by simp
  have lb: "loop_body s0 = payload_step s1"
    unfolding s1_def using L by (intro lb_good [OF nr0 len0 rd]) simp_all
  have b1: "currentFrameBuffer s1 = payload @ trailing" unfolding s1_def using d16 buf0 by simp
  have r1: "isReceivingImage s1" by (simp add: s1_def)
  have e1: "expectedPayloadSize s1 = L" by (simp add: s1_def)
  have tk: "take (expectedPayloadSize s1) (currentFrameBuffer s1) = payload"
    unfolding e1 b1 using pay by simp
  have dp: "drop (expectedPayloadSize s1) (currentFrameBuffer s1) = trailing"
    unfolding e1 b1 using pay by simp
  have le: "expectedPayloadSize s1 \<le> length (currentFrameBuffer s1)"
    unfolding e1 b1 using pay by simp
  have jp: "is_jpeg payload" using pay by (simp add: is_jpeg_iff)
  have jp1: "is_jpeg (take (expectedPayloadSize s1) (currentFrameBuffer s1))"
    unfolding tk by (rule jp)
  have ps: "payload_step s1 =
              (Return, accept_frame payload (s1\<lparr>currentFrameBuffer := trailing,
                                                 isReceivingImage := False\<rparr>))"
    using ps_accept [OF r1 le jp1] unfolding tk dp .
  have s2: "s1\<lparr>currentFrameBuffer := trailing, isReceivingImage := False\<rparr> =
            s\<lparr>expectedPayloadSize := L, currentFrameBuffer := trailing,
              isReceivingImage := False\<rparr>"
    by (simp add: s1_def s0_def)
  have "drain s0 = accept_frame payload (s1\<lparr>currentFrameBuffer := trailing,
                                                 isReceivingImage := False\<rparr>)"
    using drain_exit [OF lc] lb ps by simp
  then show ?thesis unfolding od s2 .
qed

lemma on_data_exact_unit:
  assumes live: "alive s" "\<not> hasResolvedOrRejected s"
    and fresh: "\<not> isReceivingImage s" "currentFrameBuffer s = []"
    and L: "0 < L" "L \<le> 15 * 1024 * 1024"
    and hdr: "length reserved = 12"
    and pay: "length payload = L" "take 4 payload = [0xff, 0xd8, 0xff, 0xe0]"
             "drop (L - 2) payload = [0xff, 0xd9]"
  shows "outcomes (on_data (le32 L @ reserved @ payload @ trailing) s) = outcomes s @ [Success payload]
       \<and> lastFrameData (on_data (le32 L @ reserved @ payload @ trailing) s) = Some payload
       \<and> currentFrameBuffer (on_data (le32 L @ reserved @ payload @ trailing) s) = trailing
       \<and> \<not> isReceivingImage (on_data (le32 L @ reserved @ payload @ trailing) s)"
proof -
  let ?t = "s\<lparr>expectedPayloadSize := L, currentFrameBuffer := trailing,
               isReceivingImage := False\<rparr>"
  have e: "on_data (le32 L @ reserved @ payload @ trailing) s = accept_frame payload ?t"
    using assms by (rule on_data_exact_unit_state)
  have nr: "\<not> hasResolvedOrRejected ?t" using live by simp
  obtain f p where af: "accept_frame payload ?t =
           stop (?t\<lparr>lastFrameData := Some payload, hasResolvedOrRejected := True,
                   operationTimerPending := operationTimerPending ?t \<and> \<not> operationTimeout ?t,
                   outcomes := outcomes ?t @ [Success payload], promise := p, fs := f\<rparr>)"
    using accept_frame_frame [OF nr, of payload] by blast
  show ?thesis unfolding e af by (simp add: stop_eq)
qed

lemma on_data_bad_header:
  assumes live: "alive s" "\<not> hasResolvedOrRejected s"
    and hdr: "\<not> isReceivingImage s" "16 \<le> length (currentFrameBuffer s @ data)"
    and L: "readUInt32LE (currentFrameBuffer s @ data) 0 = Inr L" "L = 0 \<or> 15 * 1024 * 1024 < L"
  shows "on_data data s =
           s\<lparr>currentFrameBuffer := [], isReceivingImage := False, expectedPayloadSize := L,
              warnings := warnings s @ [InvalidPayloadSize L]\<rparr>"
proof -
  let ?s0 = "s\<lparr>currentFrameBuffer := currentFrameBuffer s @ data\<rparr>"
  let ?s1 = "?s0\<lparr>expectedPayloadSize := L, currentFrameBuffer := [], isReceivingImage := False,
                   warnings := warnings ?s0 @ [InvalidPayloadSize L]\<rparr>"
  have od: "on_data data s = drain ?s0" using live by (simp add: on_data_def)
  have lc: "loop_cond ?s0" using live hdr by (auto simp: loop_cond_def)
  have lb: "loop_body ?s0 = (Continue, ?s1)"
    using hdr L by (intro lb_bad) simp_all
  have "drain ?s0 = drain ?s1" using drain_continue [OF lc lb] .
  also have "drain ?s1 = ?s1" by (rule drain_done) (simp add: loop_cond_def)
  finally show ?thesis unfolding od by (cases s) simp
qed

subsection \<open>The sample session\<close>

lemma read_zero_header: "readUInt32LE (replicate 16 0 @ d) 0 = Inr 0"
  by (simp add: readUInt32LE_def nth_append)

lemma sample_started:
  "start sample_camera =
     sample_camera\<lparr>alive := True, operationTimeout := True, operationTimerPending := True,
                    connectAttempts := 1, socket := True, tlsConnects := 1\<rparr>"
  by (simp add: start_def connect_def sample_camera_def new_PrinterCameraNode_def Let_def buildAuthData_layout)

lemma sample_streaming_eq:
  "sample_streaming =
     sample_camera\<lparr>alive := True, operationTimeout := True, operationTimerPending := True,
                    socket := True, tlsConnects := 1,
                    written := [auth_layout ''bblp'' ''12345678'']\<rparr>"
  unfolding sample_streaming_def
  by (simp add: sample_started on_secureConnect_def buildAuthData_layout)
     (simp add: sample_camera_def new_PrinterCameraNode_def Buffer_alloc_def buildAuthData_layout)

lemma sample_streaming_fields:
  "alive sample_streaming" "\<not> hasResolvedOrRejected sample_streaming"
  "\<not> isReceivingImage sample_streaming" "currentFrameBuffer sample_streaming = []"
  "expectedPayloadSize sample_streaming = 0"
  "outcomes sample_streaming = []" "warnings sample_streaming = []"
  "promise sample_streaming = Pending" "fs sample_streaming = sample_fs"
  "hostname sample_streaming = ''192.168.1.50''" "outputDir sample_streaming = ''/tmp/img''"
  by (simp_all add: sample_streaming_eq sample_camera_def new_PrinterCameraNode_def
        Buffer_alloc_def)

subsection \<open>What the data handler can do to a session\<close>

lemma set_decoder_id:
  "set_decoder (currentFrameBuffer s) (expectedPayloadSize s) (isReceivingImage s) (warnings s) s = s"
  by (simp add: set_decoder_def)

lemma set_decoder_twice [simp]:
  "set_decoder b e r w (set_decoder b' e' r' w' s) = set_decoder b e r w s"
  by (simp add: set_decoder_def)

lemma set_decoder_fields [simp]:
  "currentFrameBuffer (set_decoder b e r w s) = b"
  "expectedPayloadSize (set_decoder b e r w s) = e"
  "isReceivingImage (set_decoder b e r w s) = r"
  "warnings (set_decoder b e r w s) = w"
  "alive (set_decoder b e r w s) = alive s"
  "hasResolvedOrRejected (set_decoder b e r w s) = hasResolvedOrRejected s"
  "outcomes (set_decoder b e r w s) = outcomes s"
  "promise (set_decoder b e r w s) = promise s"
  "fs (set_decoder b e r w s) = fs s"
  "socket (set_decoder b e r w s) = socket s"
  "operationTimeout (set_decoder b e r w s) = operationTimeout s"
  "reconnectTimeout (set_decoder b e r w s) = reconnectTimeout s"
  "operationTimerPending (set_decoder b e r w s) = operationTimerPending s"
  "reconnectTimerPending (set_decoder b e r w s) = reconnectTimerPending s"
  "connectAttempts (set_decoder b e r w s) = connectAttempts s"
  "tlsConnects (set_decoder b e r w s) = tlsConnects s"
  "destroyed (set_decoder b e r w s) = destroyed s"
  "reconnectDelays (set_decoder b e r w s) = reconnectDelays s"
  "written (set_decoder b e r w s) = written s"
  "thrown (set_decoder b e r w s) = thrown s"
  "lastFrameData (set_decoder b e r w s) = lastFrameData s"
  "hostname (set_decoder b e r w s) = hostname s"
  "outputDir (set_decoder b e r w s) = outputDir s"
  "timeoutMs (set_decoder b e r w s) = timeoutMs s"
  "username (set_decoder b e r w s) = username s"
  "accessCode (set_decoder b e r w s) = accessCode s"
  by (simp_all add: set_decoder_def)

lemma payload_step_cases:
  "(\<exists>b e r w. payload_step s = (Continue, set_decoder b e r w s)) \<or>
   payload_step s = (Break, s) \<or>
   (\<exists>img b e r w. payload_step s = (Return, accept_frame img (set_decoder b e r w s)))"
proof (cases "isReceivingImage s")
  case False
  have "payload_step s = (Continue, set_decoder (currentFrameBuffer s)
     (expectedPayloadSize s) (isReceivingImage s) (warnings s) s)"
    by (simp only: ps_idle [OF False] set_decoder_id)
  then show ?thesis by blast
next
  case r: True
  show ?thesis
  proof (cases "expectedPayloadSize s \<le> length (currentFrameBuffer s)")
    case False
    then show ?thesis using r ps_short by simp
  next
    case le: True
    show ?thesis
    proof (cases "is_jpeg (take (expectedPayloadSize s) (currentFrameBuffer s))")
      case True
      have "payload_step s = (Return, accept_frame (take (expectedPayloadSize s) (currentFrameBuffer s))
              (set_decoder (drop (expectedPayloadSize s) (currentFrameBuffer s))
                 (expectedPayloadSize s) False (warnings s) s))"
        unfolding ps_accept [OF r le True] by (simp add: set_decoder_def)
      then show ?thesis by blast
    next
      case False
      have "payload_step s = (Continue,
              set_decoder (drop (expectedPayloadSize s) (currentFrameBuffer s)) 0 False
                (if expectedPayloadSize s > 0 \<and> currentFrameBuffer s \<noteq> []
                 then warnings s @ [NotValidJpeg] else warnings s) s)"
        unfolding ps_reject [OF r le False] by (simp add: set_decoder_def)
      then show ?thesis by blast
    qed
  qed
qed

lemma loop_body_cases:
  "(\<exists>b e r w. loop_body s = (Continue, set_decoder b e r w s)) \<or>
   (\<exists>b e r w. loop_body s = (Break, set_decoder b e r w s)) \<or>
   (\<exists>img b e r w. loop_body s = (Return, accept_frame img (set_decoder b e r w s)))"
proof (cases "isReceivingImage s")
  case True
  have "payload_step s = (Break, s) \<Longrightarrow> payload_step s = (Break, set_decoder (currentFrameBuffer s)
     (expectedPayloadSize s) (isReceivingImage s) (warnings s) s)"
    by (simp add: set_decoder_id)
  note br = this
  have lb: "loop_body s = payload_step s" by (rule lb_receiving [OF True])
  have "(\<exists>b e r w. payload_step s = (Continue, set_decoder b e r w s)) \<or>
        (\<exists>b e r w. payload_step s = (Break, set_decoder b e r w s)) \<or>
        (\<exists>img b e r w. payload_step s = (Return, accept_frame img (set_decoder b e r w s)))"
    (is ?G)
    using payload_step_cases [of s]
  proof (elim disjE)
    assume "\<exists>b e r w. payload_step s = (Continue, set_decoder b e r w s)"
    then show ?G by (rule disjI1)
  next
    assume "payload_step s = (Break, s)"
    from br [OF this] show ?G by (intro disjI2 disjI1 exI)
  next
    assume "\<exists>img b e r w. payload_step s = (Return, accept_frame img (set_decoder b e r w s))"
    then show ?G by (intro disjI2)
  qed
  then show ?thesis unfolding lb .
next
  case nr: False
  show ?thesis
  proof (cases "16 \<le> length (currentFrameBuffer s)")
    case False
    then have "loop_body s = (Break, s)" using lb_short [OF nr] by simp
    then have "loop_body s = (Break, set_decoder (currentFrameBuffer s)
       (expectedPayloadSize s) (isReceivingImage s) (warnings s) s)"
      by (simp only: set_decoder_id)
    then show ?thesis by blast
  next
    case True
    then obtain v where v: "readUInt32LE (currentFrameBuffer s) 0 = Inr v"
      using read_header by blast
    show ?thesis
    proof (cases "v = 0 \<or> 15728640 < v")
      case bad: True
      have "loop_body s = (Continue, set_decoder [] v False (warnings s @ [InvalidPayloadSize v]) s)"
        unfolding lb_bad [OF nr True v bad] by (simp add: set_decoder_def)
      then show ?thesis by blast
    next
      case False
      define s1 where "s1 = set_decoder (drop 16 (currentFrameBuffer s)) v True (warnings s) s"
      have "loop_body s = payload_step (s\<lparr>expectedPayloadSize := v,
                     currentFrameBuffer := drop 16 (currentFrameBuffer s),
                     isReceivingImage := True\<rparr>)"
        using False by (intro lb_good [OF nr True v]) auto
      also have "s\<lparr>expectedPayloadSize := v,
                     currentFrameBuffer := drop 16 (currentFrameBuffer s),
                     isReceivingImage := True\<rparr> = s1"
        by (simp add: s1_def set_decoder_def)
      finally have lb: "loop_body s = payload_step s1" .
      have br: "payload_step s1 = (Break, s1) \<Longrightarrow>
                \<exists>b e r w. payload_step s1 = (Break, set_decoder b e r w s)"
        unfolding s1_def by blast
      have co: "payload_step s1 = (Continue, set_decoder b e r w s1) \<Longrightarrow>
                \<exists>b e r w. payload_step s1 = (Continue, set_decoder b e r w s)" for b e r w
        unfolding s1_def set_decoder_twice by blast
      have re: "payload_step s1 = (Return, accept_frame img (set_decoder b e r w s1)) \<Longrightarrow>
                \<exists>img b e r w. payload_step s1 = (Return, accept_frame img (set_decoder b e r w s))"
        for img b e r w
        unfolding s1_def set_decoder_twice by blast
      have "(\<exists>b e r w. payload_step s1 = (Continue, set_decoder b e r w s)) \<or>
            (\<exists>b e r w. payload_step s1 = (Break, set_decoder b e r w s)) \<or>
            (\<exists>img b e r w. payload_step s1 = (Return, accept_frame img (set_decoder b e r w s)))"
        (is ?G)
        using payload_step_cases [of s1]
      proof (elim disjE exE)
        fix b e r w
        assume "payload_step s1 = (Continue, set_decoder b e r w s1)"
        from co [OF this] show ?G by (rule disjI1)
      next
        assume "payload_step s1 = (Break, s1)"
        from br [OF this] show ?G by (intro disjI2 disjI1)
      next
        fix img b e r w
        assume "payload_step s1 = (Return, accept_frame img (set_decoder b e r w s1))"
        from re [OF this] show ?G by (intro disjI2)
      qed
      then show ?thesis unfolding lb .
    qed
  qed
qed

lemma drain_cases:
  "(\<exists>b e r w. drain s = set_decoder b e r w s) \<or>
   (alive s \<and> \<not> hasResolvedOrRejected s \<and>
    (\<exists>img b e r w. drain s = accept_frame img (set_decoder b e r w s)))"
proof (induction s rule: drain.induct)
  case (1 s)
  let ?P = "\<lambda>s. (\<exists>b e r w. drain s = set_decoder b e r w s) \<or>
   (alive s \<and> \<not> hasResolvedOrRejected s \<and>
    (\<exists>img b e r w. drain s = accept_frame img (set_decoder b e r w s)))"
  show ?case
  proof (cases "loop_cond s")
    case False
    have "drain s = set_decoder (currentFrameBuffer s) (expectedPayloadSize s)
            (isReceivingImage s) (warnings s) s"
      unfolding drain_done [OF False] by (simp only: set_decoder_id)
    then show ?thesis by blast
  next
    case lc: True
    then have live: "alive s" "\<not> hasResolvedOrRejected s" by (simp_all add: loop_cond_def)
    from loop_body_cases [of s] show ?thesis
    proof (elim disjE exE)
      fix b e r w
      assume lb: "loop_body s = (Continue, set_decoder b e r w s)"
      have d: "drain s = drain (set_decoder b e r w s)" by (rule drain_continue [OF lc lb])
      have "?P (set_decoder b e r w s)" using "1.IH" [OF lc] lb by simp
      then show ?thesis
      proof (elim disjE exE conjE)
        fix b' e' r' w'
        assume "drain (set_decoder b e r w s) = set_decoder b' e' r' w' (set_decoder b e r w s)"
        then have "drain s = set_decoder b' e' r' w' s" using d by simp
        then show ?thesis by blast
      next
        fix img b' e' r' w'
        assume "drain (set_decoder b e r w s) =
                  accept_frame img (set_decoder b' e' r' w' (set_decoder b e r w s))"
        then have "drain s = accept_frame img (set_decoder b' e' r' w' s)" using d by simp
        then show ?thesis using live by blast
      qed
    next
      fix b e r w
      assume lb: "loop_body s = (Break, set_decoder b e r w s)"
      have "drain s = set_decoder b e r w s" using drain_exit [OF lc lb] by simp
      then show ?thesis by blast
    next
      fix img b e r w
      assume lb: "loop_body s = (Return, accept_frame img (set_decoder b e r w s))"
      have "drain s = accept_frame img (set_decoder b e r w s)" using drain_exit [OF lc lb] by simp
      then show ?thesis using live by blast
    qed
  qed
qed

lemma accepted_fields [simp]:
  "alive (accepted img p f s) = False"
  "hasResolvedOrRejected (accepted img p f s) = True"
  "outcomes (accepted img p f s) = outcomes s @ [Success img]"
  "promise (accepted img p f s) = p"
  "fs (accepted img p f s) = f"
  "socket (accepted img p f s) = False"
  "operationTimeout (accepted img p f s) = False"
  "reconnectTimeout (accepted img p f s) = False"
  "operationTimerPending (accepted img p f s) =
     (operationTimerPending s \<and> \<not> operationTimeout s)"
  "reconnectTimerPending (accepted img p f s) = (reconnectTimerPending s \<and> \<not> reconnectTimeout s)"
  "connectAttempts (accepted img p f s) = connectAttempts s"
  "tlsConnects (accepted img p f s) = tlsConnects s"
  "reconnectDelays (accepted img p f s) = reconnectDelays s"
  "written (accepted img p f s) = written s"
  "thrown (accepted img p f s) = thrown s"
  "lastFrameData (accepted img p f s) = Some img"
  "currentFrameBuffer (accepted img p f s) = currentFrameBuffer s"
  "expectedPayloadSize (accepted img p f s) = expectedPayloadSize s"
  "isReceivingImage (accepted img p f s) = isReceivingImage s"
  "warnings (accepted img p f s) = warnings s"
  "timeoutMs (accepted img p f s) = timeoutMs s"
  by (simp_all add: accepted_def stop_eq)

lemma on_data_cases:
  "(\<exists>b e r w. on_data d s = set_decoder b e r w s) \<or>
   (alive s \<and> \<not> hasResolvedOrRejected s \<and>
    (\<exists>img b e r w. on_data d s = accept_frame img (set_decoder b e r w s)))"
proof (cases "\<not> alive s \<or> hasResolvedOrRejected s")
  case True
  then have "on_data d s = s" by (simp add: on_data_def)
  then have "on_data d s = set_decoder (currentFrameBuffer s) (expectedPayloadSize s)
            (isReceivingImage s) (warnings s) s"
    by (simp only: set_decoder_id)
  then show ?thesis by blast
next
  case False
  then have live: "alive s" "\<not> hasResolvedOrRejected s" by simp_all
  define s0 where "s0 = set_decoder (currentFrameBuffer s @ d) (expectedPayloadSize s)
            (isReceivingImage s) (warnings s) s"
  have "s\<lparr>currentFrameBuffer := currentFrameBuffer s @ d\<rparr> = s0"
    by (simp add: s0_def set_decoder_def)
  then have od: "on_data d s = drain s0" using live by (simp add: on_data_def)
  from drain_cases [of s0] show ?thesis
  proof (elim disjE exE conjE)
    fix b e r w
    assume "drain s0 = set_decoder b e r w s0"
    then have "on_data d s = set_decoder b e r w s" unfolding od s0_def by simp
    then show ?thesis by blast
  next
    fix img b e r w
    assume "drain s0 = accept_frame img (set_decoder b e r w s0)"
    then have a: "on_data d s = accept_frame img (set_decoder b e r w s)"
      unfolding od s0_def by simp
    then show ?thesis using live by blast
  qed
qed

lemma on_data_effect:
  "(\<exists>b e r w. on_data d s = set_decoder b e r w s) \<or>
   (alive s \<and> \<not> hasResolvedOrRejected s \<and>
    (\<exists>img b e r w p f. on_data d s = accepted img p f (set_decoder b e r w s)))"
  using on_data_cases [of d s]
proof (elim disjE exE conjE)
  fix b e r w
  assume "on_data d s = set_decoder b e r w s"
  then show ?thesis by blast
next
  fix img b e r w
  assume a: "on_data d s = accept_frame img (set_decoder b e r w s)"
    and live: "alive s" "\<not> hasResolvedOrRejected s"
  have "\<not> hasResolvedOrRejected (set_decoder b e r w s)" using live by simp
  from accept_frame_frame [OF this, of img]
  obtain f p where
    "accept_frame img (set_decoder b e r w s) = accepted img p f (set_decoder b e r w s)"
    unfolding accepted_def by blast
  then have "on_data d s = accepted img p f (set_decoder b e r w s)" using a by simp
  then show ?thesis using live by blast
qed

subsection \<open>The invariant of a session\<close>

lemmas handler_defs =
  connect_def scheduleReconnect_def on_reject_eq settle_eq stop_eq Let_def
  on_operationTimeout_def on_reconnectTimeout_def on_secureConnect_def
  on_error_def on_close_def on_timeout_def

lemma inv_stop: "session_inv s \<Longrightarrow> session_inv (stop s)"
  by (auto simp: session_inv_def stopped_def stop_eq)

lemma inv_connect: "session_inv s \<Longrightarrow> session_inv (connect s)"
  by (auto simp: session_inv_def stopped_def handler_defs split: sum.splits)

lemma inv_scheduleReconnect: "session_inv s \<Longrightarrow> session_inv (scheduleReconnect s)"
  by (auto simp: session_inv_def stopped_def handler_defs)

lemma inv_on_secureConnect: "session_inv s \<Longrightarrow> session_inv (on_secureConnect s)"
  by (auto simp: session_inv_def stopped_def handler_defs split: sum.splits)

lemma inv_on_error: "session_inv s \<Longrightarrow> session_inv (on_error c s)"
  by (auto simp: session_inv_def stopped_def handler_defs)

lemma inv_on_close: "session_inv s \<Longrightarrow> session_inv (on_close h s)"
  by (auto simp: session_inv_def stopped_def handler_defs)

lemma inv_on_timeout: "session_inv s \<Longrightarrow> session_inv (on_timeout s)"
  by (auto simp: session_inv_def stopped_def handler_defs)

lemma inv_on_operationTimeout: "session_inv s \<Longrightarrow> session_inv (on_operationTimeout s)"
  by (auto simp: session_inv_def stopped_def handler_defs)

lemma inv_on_reconnectTimeout: "session_inv s \<Longrightarrow> session_inv (on_reconnectTimeout s)"
  by (auto simp: session_inv_def stopped_def handler_defs split: sum.splits)

lemma inv_on_data: "session_inv s \<Longrightarrow> session_inv (on_data d s)"
  using on_data_effect [of d s]
  by (elim disjE exE conjE) (auto simp: session_inv_def stopped_def)

lemma inv_step: "session_inv s \<Longrightarrow> session_inv (step e s)"
  by (cases e)
     (simp_all add: inv_stop inv_on_secureConnect inv_on_error inv_on_close inv_on_timeout
        inv_on_operationTimeout inv_on_reconnectTimeout inv_on_data)

lemma inv_run: "session_inv s \<Longrightarrow> session_inv (run es s)"
  by (induction es arbitrary: s) (simp_all add: inv_step)

lemma inv_new: "session_inv (new_PrinterCameraNode h c p u t d f)"
  by (simp add: session_inv_def stopped_def new_PrinterCameraNode_def)

lemma inv_start: "session_inv s \<Longrightarrow> outcomes s = [] \<Longrightarrow> session_inv (start s)"
  by (auto simp: session_inv_def stopped_def start_def handler_defs split: sum.splits)

lemma inv_settle: "session_inv s \<Longrightarrow> session_inv (settle v s)"
  by (simp add: session_inv_def stopped_def settle_eq)

lemma inv_capture: "session_inv (captureSingleFrameFromPrinter ip code opts cwd f)"
proof -
  have n: "outcomes (new_PrinterCameraNode h c p u t d f) = []" for h c p u t d f
    by (simp add: new_PrinterCameraNode_def)
  show ?thesis
    unfolding captureSingleFrameFromPrinter_def Let_def
    by (simp add: inv_settle inv_new inv_start n split: list.splits)
qed

lemma stopped_stop: "stopped s \<Longrightarrow> stop s = s"
  by (cases s) (simp add: stopped_def stop_eq)

lemma settled_step:
  assumes "session_inv s" and "hasResolvedOrRejected s"
  shows "outcomes (step e s) = outcomes s \<and> promise (step e s) = promise s \<and>
         fs (step e s) = fs s \<and> hasResolvedOrRejected (step e s)"
proof -
  have st: "stopped s" using assms by (simp add: session_inv_def)
  show ?thesis
  proof (cases e)
    case (Data d)
    then show ?thesis using assms by (simp add: on_data_def)
  next
    case Stop
    then show ?thesis using st by (simp add: stopped_stop assms)
  qed (use assms st in \<open>auto simp: stopped_def handler_defs split: sum.splits\<close>)
qed

lemma settled_run:
  assumes "session_inv s" and "hasResolvedOrRejected s"
  shows "outcomes (run es s) = outcomes s \<and> promise (run es s) = promise s \<and>
         fs (run es s) = fs s"
  using assms
proof (induction es arbitrary: s)
  case Nil
  then show ?case by simp
next
  case (Cons e es)
  have "session_inv (step e s)" using Cons.prems by (simp add: inv_step)
  moreover have "hasResolvedOrRejected (step e s)"
    using settled_step [OF Cons.prems] by simp
  ultimately have "outcomes (run es (step e s)) = outcomes (step e s) \<and>
     promise (run es (step e s)) = promise (step e s) \<and> fs (run es (step e s)) = fs (step e s)"
    by (rule Cons.IH)
  then show ?case using settled_step [OF Cons.prems, of e] by simp
qed

lemma run_append: "run (es @ es') s = run es' (run es s)"
  by (induction es arbitrary: s) simp_all

lemma settled_stop_run:
  assumes "session_inv s" and "hasResolvedOrRejected s"
  shows "run (replicate n Stop) s = s"
proof -
  have "stopped s" using assms by (simp add: session_inv_def)
  then show ?thesis by (induction n) (simp_all add: stopped_stop)
qed

lemma sample_session_eq: "sample_session = start sample_camera"
proof -
  have a: "sample_session =
             (case thrown (start sample_camera) of [] \<Rightarrow> start sample_camera
              | e # es \<Rightarrow> settle (Rejected (Thrown e)) (start sample_camera))"
    unfolding sample_session_def captureSingleFrameFromPrinter_def sample_options_def
      Let_def sample_camera_def
    by (simp cong: list.case_cong)
  have b: "thrown (start sample_camera) = []"
    by (simp add: sample_started) (simp add: sample_camera_def new_PrinterCameraNode_def)
  show ?thesis unfolding a b by simp
qed

lemma sample_session_streaming: "run [SecureConnect] sample_session = sample_streaming"
  by (simp add: sample_session_eq sample_streaming_def)

lemma sample_capture_outcomes:
  "outcomes (run [SecureConnect, Data sample_unit] sample_session) = [Success sample_jpeg]"
proof -
  have "outcomes (on_data (le32 10 @ replicate 12 0 @ sample_jpeg @ []) sample_streaming) =
        outcomes sample_streaming @ [Success sample_jpeg]"
    using on_data_exact_unit [of sample_streaming 10 "replicate 12 0" sample_jpeg "[]"]
    by (simp add: sample_streaming_fields sample_jpeg_def)
  then have "outcomes (on_data sample_unit sample_streaming) = [Success sample_jpeg]"
    by (simp add: sample_unit_def sample_streaming_fields)
  moreover have "run [SecureConnect, Data sample_unit] sample_session =
                 on_data sample_unit (run [SecureConnect] sample_session)"
    by simp
  ultimately show ?thesis by (simp only: sample_session_streaming)
qed

subsection \<open>Fields after stopping and rejecting\<close>

lemma stop_fields:
  "alive (stop s) = False"
  "socket (stop s) = False"
  "operationTimeout (stop s) = False"
  "reconnectTimeout (stop s) = False"
  "operationTimerPending (stop s) = (operationTimerPending s \<and> \<not> operationTimeout s)"
  "reconnectTimerPending (stop s) = (reconnectTimerPending s \<and> \<not> reconnectTimeout s)"
  "hasResolvedOrRejected (stop s) = hasResolvedOrRejected s"
  "outcomes (stop s) = outcomes s"
  "promise (stop s) = promise s"
  "fs (stop s) = fs s"
  "connectAttempts (stop s) = connectAttempts s"
  "tlsConnects (stop s) = tlsConnects s"
  "reconnectDelays (stop s) = reconnectDelays s"
  "currentFrameBuffer (stop s) = currentFrameBuffer s"
  "expectedPayloadSize (stop s) = expectedPayloadSize s"
  "isReceivingImage (stop s) = isReceivingImage s"
  "lastFrameData (stop s) = lastFrameData s"
  "warnings (stop s) = warnings s"
  "written (stop s) = written s"
  "thrown (stop s) = thrown s"
  by (simp_all add: stop_eq)


subsection \<open>A session without operation timer\<close>

lemma promise_on_resolve:
  "promise (on_resolve img s) = promise s \<or>
   (\<exists>v. promise (on_resolve img s) = Fulfilled v) \<or>
   (\<exists>e. promise (on_resolve img s) = Rejected (Thrown e))"
  by (auto simp: on_resolve_def Let_def settle_eq stop_eq split: sum.splits)

lemma promise_accept_frame:
  "promise (accept_frame img s) = promise s \<or>
   (\<exists>v. promise (accept_frame img s) = Fulfilled v) \<or>
   (\<exists>e. promise (accept_frame img s) = Rejected (Thrown e))"
proof (cases "hasResolvedOrRejected s")
  case True
  then show ?thesis by (simp add: accept_frame_def Let_def stop_eq)
next
  case False
  let ?s4 = "s\<lparr>lastFrameData := Some img, hasResolvedOrRejected := True,
                operationTimerPending := operationTimerPending s \<and> \<not> operationTimeout s\<rparr>"
  have e: "accept_frame img s = stop (on_resolve img ?s4)"
    using False by (cases s) (simp add: accept_frame_def Let_def)
  show ?thesis using promise_on_resolve [of img ?s4] unfolding e by (simp add: stop_eq)
qed

lemma no_timer_on_data: "no_timer s \<Longrightarrow> no_timer (on_data d s)"
proof -
  assume n: "no_timer s"
  from on_data_cases [of d s] show ?thesis
  proof (elim disjE exE conjE)
    fix b e r w
    assume "on_data d s = set_decoder b e r w s"
    then show ?thesis using n by (simp add: no_timer_def)
  next
    fix img b e r w
    assume a: "on_data d s = accept_frame img (set_decoder b e r w s)"
      and live: "\<not> hasResolvedOrRejected s"
    have "\<not> hasResolvedOrRejected (set_decoder b e r w s)" using live by simp
    from accept_frame_frame [OF this, of img]
    obtain f p where af: "accept_frame img (set_decoder b e r w s) =
        accepted img p f (set_decoder b e r w s)"
      unfolding accepted_def by blast
    have pr: "promise (on_data d s) = promise s \<or> (\<exists>v. promise (on_data d s) = Fulfilled v) \<or>
              (\<exists>e. promise (on_data d s) = Rejected (Thrown e))"
      using promise_accept_frame [of img "set_decoder b e r w s"] unfolding a by simp
    have "\<not> operationTimerPending (on_data d s)" "\<not> operationTimeout (on_data d s)"
      "list_all (\<lambda>r. \<not> is_timeout r) (outcomes (on_data d s))"
      using n unfolding a af by (simp_all add: no_timer_def is_timeout_def)
    moreover have "case promise (on_data d s) of Rejected (OperationTimedOut t) \<Rightarrow> False | _ \<Rightarrow> True"
      using pr n by (auto simp: no_timer_def)
    ultimately show ?thesis by (simp add: no_timer_def)
  qed
qed

lemma no_timer_step: "no_timer s \<Longrightarrow> no_timer (step e s)"
proof (cases e)
  case (Data d)
  then show "no_timer s \<Longrightarrow> no_timer (step e s)" by (simp add: no_timer_on_data)
qed (auto simp: no_timer_def is_timeout_def handler_defs split: sum.splits promise_state.splits failure.splits)

lemma no_timer_run: "no_timer s \<Longrightarrow> no_timer (run es s)"
  by (induction es arbitrary: s) (simp_all add: no_timer_step)

lemma no_timer_capture:
  assumes "opt_timeoutMs opts = Some t" and "t \<le> 0"
  shows "no_timer (captureSingleFrameFromPrinter ip code opts cwd f)"
  using assms
  by (auto simp: captureSingleFrameFromPrinter_def Let_def no_timer_def is_timeout_def
        new_PrinterCameraNode_def start_def handler_defs
      split: list.splits sum.splits)

lemma waiting_on_data: "waiting s \<Longrightarrow> waiting (on_data d s)"
  using on_data_effect [of d s]
  by (elim disjE exE conjE) (auto simp: waiting_def frame_or_exhausted_def)

lemma waiting_step: "waiting s \<Longrightarrow> e \<noteq> Stop \<Longrightarrow> waiting (step e s)"
proof (cases e)
  case (Data d)
  then show "waiting s \<Longrightarrow> e \<noteq> Stop \<Longrightarrow> waiting (step e s)" by (simp add: waiting_on_data)
qed (auto simp: waiting_def frame_or_exhausted_def handler_defs split: sum.splits)

lemma waiting_run: "waiting s \<Longrightarrow> Stop \<notin> set es \<Longrightarrow> waiting (run es s)"
  by (induction es arbitrary: s) (auto simp: waiting_step)

lemma waiting_capture:
  assumes "opt_timeoutMs opts = Some t" and "t \<le> 0" and "ip \<noteq> []" and "code \<noteq> []"
  shows "waiting (captureSingleFrameFromPrinter ip code opts cwd f)"
  using assms
  by (auto simp: captureSingleFrameFromPrinter_def Let_def waiting_def
        new_PrinterCameraNode_def start_def handler_defs
      split: list.splits sum.splits)

lemma sample_no_timeout_started:
  "captureSingleFrameFromPrinter ''192.168.1.50'' ''12345678'' sample_options_no_timeout
     ''/home/bot'' sample_fs =
   (new_PrinterCameraNode ''192.168.1.50'' ''12345678'' 6000 ''bblp'' 0 ''/tmp/img'' sample_fs)
     \<lparr>alive := True, connectAttempts := 1, socket := True, tlsConnects := 1\<rparr>"
proof -
  let ?c = "new_PrinterCameraNode ''192.168.1.50'' ''12345678'' 6000 ''bblp'' 0 ''/tmp/img'' sample_fs"
  have st: "start ?c = ?c\<lparr>alive := True, connectAttempts := 1, socket := True, tlsConnects := 1\<rparr>"
    by (simp add: start_def connect_def new_PrinterCameraNode_def Let_def buildAuthData_layout)
  have "captureSingleFrameFromPrinter ''192.168.1.50'' ''12345678'' sample_options_no_timeout
     ''/home/bot'' sample_fs =
        (case thrown (start ?c) of [] \<Rightarrow> start ?c
         | e # es \<Rightarrow> settle (Rejected (Thrown e)) (start ?c))"
    unfolding captureSingleFrameFromPrinter_def sample_options_no_timeout_def sample_options_def
      Let_def
    by (simp cong: list.case_cong)
  then show ?thesis unfolding st by (simp add: new_PrinterCameraNode_def)
qed

subsection \<open>The attempt counter and the failing transport\<close>

lemma connectAttempts_on_data: "connectAttempts (on_data d s) = connectAttempts s"
  using on_data_effect [of d s] by (elim disjE exE conjE) simp_all















subsection \<open>Connections that close after the handshake\<close>






subsection \<open>Saving the frame\<close>

lemma on_resolve_saved:
  assumes "fault (fs s) = None"
  shows "on_resolve img s =
           stop (s\<lparr>outcomes := outcomes s @ [Success img],
                   fs := (fs s)\<lparr>dirs := (if outputDir s \<in> set (dirs (fs s)) then dirs (fs s)
                                        else outputDir s # dirs (fs s)),
                               files := (saved_path s, img) # files (fs s)\<rparr>,
                   promise := (if promise s = Pending then Fulfilled (PathString (saved_path s))
                               else promise s)\<rparr>)"
  using assms
  by (cases s)
     (simp add: on_resolve_def Let_def existsSync_def mkdirSync_def writeFileSync_def
        settle_eq saved_path_def)

lemma on_resolve_fault:
  assumes "fault (fs s) = Some e"
  shows "on_resolve img s =
           stop (s\<lparr>outcomes := outcomes s @ [Success img],
                   promise := (if promise s = Pending then Rejected (Thrown e)
                               else promise s)\<rparr>)"
  using assms
  by (cases s)
     (simp add: on_resolve_def Let_def existsSync_def mkdirSync_def writeFileSync_def
        settle_eq)

lemma accept_frame_live:
  "\<not> hasResolvedOrRejected s \<Longrightarrow>
   accept_frame img s =
     stop (on_resolve img
       (s\<lparr>lastFrameData := Some img, hasResolvedOrRejected := True,
          operationTimerPending := operationTimerPending s \<and> \<not> operationTimeout s\<rparr>))"
  by (cases s) (simp add: accept_frame_def Let_def)

lemma accept_frame_saves:
  assumes "\<not> hasResolvedOrRejected s" and "promise s = Pending"
  shows "outcomes (accept_frame img s) = outcomes s @ [Success img] \<and>
         promise (accept_frame img s) =
           (case fault (fs s) of None \<Rightarrow> Fulfilled (PathString (saved_path s))
            | Some e \<Rightarrow> Rejected (Thrown e)) \<and>
         files (fs (accept_frame img s)) =
           (case fault (fs s) of None \<Rightarrow> (saved_path s, img) # files (fs s)
            | Some e \<Rightarrow> files (fs s))"
proof (cases "fault (fs s)")
  case None
  then show ?thesis
    using assms
    by (simp add: accept_frame_live on_resolve_saved stop_fields saved_path_def)
next
  case (Some e)
  then show ?thesis
    using assms
    by (simp add: accept_frame_live on_resolve_fault stop_fields)
qed

lemma accept_frame_persists:
  assumes "\<not> hasResolvedOrRejected s" and "promise s = Pending"
  shows "outcomes (accept_frame img s) = outcomes s @ [Success img] \<and>
         lastFrameData (accept_frame img s) = Some img \<and>
         (case fault (fs s) of
            None \<Rightarrow>
              promise (accept_frame img s) = Fulfilled (PathString (saved_path s)) \<and>
              files (fs (accept_frame img s)) = (saved_path s, img) # files (fs s) \<and>
              dirs (fs (accept_frame img s)) =
                (if outputDir s \<in> set (dirs (fs s)) then dirs (fs s)
                 else outputDir s # dirs (fs s))
          | Some e \<Rightarrow>
              promise (accept_frame img s) = Rejected (Thrown e) \<and>
              files (fs (accept_frame img s)) = files (fs s) \<and>
              dirs (fs (accept_frame img s)) = dirs (fs s))"
proof (cases "fault (fs s)")
  case None
  then show ?thesis
    using assms
    by (simp add: accept_frame_live on_resolve_saved stop_fields saved_path_def)
next
  case (Some e)
  then show ?thesis
    using assms
    by (simp add: accept_frame_live on_resolve_fault stop_fields)
qed

subsection \<open>Decoding a buffer that is extended\<close>

lemma append_buffer_fields [simp]:
  "currentFrameBuffer (append_buffer b s) = currentFrameBuffer s @ b"
  "expectedPayloadSize (append_buffer b s) = expectedPayloadSize s"
  "isReceivingImage (append_buffer b s) = isReceivingImage s"
  "warnings (append_buffer b s) = warnings s"
  "alive (append_buffer b s) = alive s"
  "hasResolvedOrRejected (append_buffer b s) = hasResolvedOrRejected s"
  "invalid_headers (append_buffer b s) = invalid_headers s"
  by (simp_all add: append_buffer_def invalid_headers_def)

lemma append_buffer_Nil [simp]: "append_buffer [] s = s"
  by (simp add: append_buffer_def)












lemma invalid_headers_steps [simp]:
  "invalid_headers (header_read v s) = invalid_headers s"
  "invalid_headers (header_dropped v s) = Suc (invalid_headers s)"
  "invalid_headers (payload_taken s) = invalid_headers s"
  "invalid_headers (payload_rejected s) = invalid_headers s"
  by (simp_all add: invalid_headers_def header_read_def header_dropped_def payload_taken_def
        payload_rejected_def is_invalid_size_def)

lemma step_flags [simp]:
  "alive (header_read v s) = alive s"
  "hasResolvedOrRejected (header_read v s) = hasResolvedOrRejected s"
  "alive (payload_taken s) = alive s"
  "hasResolvedOrRejected (payload_taken s) = hasResolvedOrRejected s"
  "alive (payload_rejected s) = alive s"
  "hasResolvedOrRejected (payload_rejected s) = hasResolvedOrRejected s"
  by (simp_all add: header_read_def payload_taken_def payload_rejected_def)














section \<open>The claims\<close>

text \<open>
  C1. Take any session that the public operation creates and any sequence of events
  after it, in any order: completed handshakes, incoming data, socket errors, closes
  and inactivity time-outs, firings of the reconnect timer and of the operation timer,
  and calls of \<open>stop\<close>. The callbacks handed to \<open>start\<close> are called at most once. Once
  one was called, no later event calls a callback again or changes the promise.
\<close>

theorem settles_at_most_once:
  "length (outcomes (run evs (captureSingleFrameFromPrinter ip code opts cwd f))) \<le> 1 \<and>
   (outcomes (run evs (captureSingleFrameFromPrinter ip code opts cwd f)) \<noteq> [] \<longrightarrow>
    outcomes (run (evs @ later) (captureSingleFrameFromPrinter ip code opts cwd f)) =
      outcomes (run evs (captureSingleFrameFromPrinter ip code opts cwd f)) \<and>
    promise (run (evs @ later) (captureSingleFrameFromPrinter ip code opts cwd f)) =
      promise (run evs (captureSingleFrameFromPrinter ip code opts cwd f)))"
proof -
  let ?s = "run evs (captureSingleFrameFromPrinter ip code opts cwd f)"
  have i: "session_inv ?s" by (intro inv_run inv_capture)
  then have "length (outcomes ?s) \<le> 1" by (simp add: session_inv_def)
  moreover have "outcomes (run later ?s) = outcomes ?s \<and> promise (run later ?s) = promise ?s"
    if "outcomes ?s \<noteq> []"
  proof -
    have "hasResolvedOrRejected ?s" using i that by (simp add: session_inv_def)
    then show ?thesis using settled_run [OF i] by simp
  qed
  ultimately show ?thesis by (simp add: run_append)
qed

theorem settles_at_most_once_witness:
  "outcomes (run [SecureConnect, Data sample_unit] sample_session) = [Success sample_jpeg] \<and>
   outcomes (run ([SecureConnect, Data sample_unit] @
                  [Data sample_unit, OperationTimerFires, SocketError ''ECONNRESET'',
                   SocketClose True, ReconnectTimerFires, Stop]) sample_session) =
     [Success sample_jpeg]"
  using settles_at_most_once [of "[SecureConnect, Data sample_unit]" "''192.168.1.50''"
      "''12345678''" sample_options "''/home/bot''" sample_fs
      "[Data sample_unit, OperationTimerFires, SocketError ''ECONNRESET'',
        SocketClose True, ReconnectTimerFires, Stop]"]
    sample_capture_outcomes
  unfolding sample_session_def [symmetric] by simp




text \<open>
  C3, as the code has it. A live, unsettled decoder awaits a header and, with the bytes
  just received, holds at least 16 bytes whose first four are \<open>L\<close> in little-endian with
  \<open>L = 0\<close> or \<open>L > 15 MiB\<close>. The decoder raises no error and accepts nothing; it logs the
  invalid size and empties the whole buffer: the 16 header bytes and every byte buffered
  after them are discarded. It stays in the state that awaits a header, so the next
  bytes to arrive are read as the start of a header.
\<close>

theorem bad_header_resets_buffer:
  assumes "alive s" and "\<not> hasResolvedOrRejected s"
    and "\<not> isReceivingImage s" and "16 \<le> length (currentFrameBuffer s @ data)"
    and "readUInt32LE (currentFrameBuffer s @ data) 0 = Inr L"
    and "L = 0 \<or> 15 * 1024 * 1024 < L"
  shows "on_data data s =
           s\<lparr>currentFrameBuffer := [], isReceivingImage := False, expectedPayloadSize := L,
              warnings := warnings s @ [InvalidPayloadSize L]\<rparr>"
  using assms by (rule on_data_bad_header)

theorem bad_header_resets_buffer_witness:
  "on_data (replicate 16 0 @ sample_unit) sample_streaming =
     sample_streaming\<lparr>currentFrameBuffer := [], isReceivingImage := False,
       expectedPayloadSize := 0, warnings := [InvalidPayloadSize 0]\<rparr>"
  using bad_header_resets_buffer [of sample_streaming "replicate 16 0 @ sample_unit" 0]
  by (simp add: sample_streaming_fields read_zero_header)

theorem bad_header_drops_following_unit:
  "outcomes (on_data sample_unit sample_streaming) = [Success sample_jpeg] \<and>
   outcomes (on_data (replicate 16 0 @ sample_unit) sample_streaming) \<noteq> [Success sample_jpeg] \<and>
   currentFrameBuffer (on_data (replicate 16 0 @ [1, 2, 3]) sample_streaming) \<noteq> [1, 2, 3]"
proof -
  have a: "outcomes (on_data (le32 10 @ replicate 12 0 @ sample_jpeg @ []) sample_streaming) =
           outcomes sample_streaming @ [Success sample_jpeg]"
    using on_data_exact_unit [of sample_streaming 10 "replicate 12 0" sample_jpeg "[]"]
    by (simp add: sample_streaming_fields sample_jpeg_def)
  have b: "on_data (replicate 16 0 @ d) sample_streaming =
           sample_streaming\<lparr>currentFrameBuffer := [], isReceivingImage := False,
              expectedPayloadSize := 0,
              warnings := warnings sample_streaming @ [InvalidPayloadSize 0]\<rparr>" for d
    using on_data_bad_header [of sample_streaming "replicate 16 0 @ d" 0]
    by (simp add: sample_streaming_fields read_zero_header)
  show ?thesis using a by (simp add: b sample_unit_def sample_streaming_fields)
qed




text \<open>
  C5, as the code has it. The attempt counter is 0 in a new session. \<open>start\<close> and the
  firing of the reconnect timer add one when they make a connection attempt. The
  callback of \<open>tls.connect\<close>, that is every successful connection, sets it back to 0.
  No other event changes it.
\<close>

theorem attempt_counter_changes:
  "connectAttempts (new_PrinterCameraNode h c p u t d f) = 0 \<and>
   connectAttempts (start s) = (if alive s then connectAttempts s else connectAttempts s + 1) \<and>
   connectAttempts (step e s) =
     (case e of
        SecureConnect \<Rightarrow>
          if socket s \<and> \<not> isl (buildAuthData s) then 0 else connectAttempts s
      | ReconnectTimerFires \<Rightarrow>
          if reconnectTimerPending s \<and> alive s then connectAttempts s + 1 else connectAttempts s
      | _ \<Rightarrow> connectAttempts s)"
proof -
  have a: "connectAttempts (new_PrinterCameraNode h c p u t d f) = 0"
    by (simp add: new_PrinterCameraNode_def)
  have b: "connectAttempts (start s) = (if alive s then connectAttempts s else connectAttempts s + 1)"
    by (auto simp: start_def handler_defs split: sum.splits)
  have c: "connectAttempts (step e s) =
     (case e of
        SecureConnect \<Rightarrow>
          if socket s \<and> \<not> isl (buildAuthData s) then 0 else connectAttempts s
      | ReconnectTimerFires \<Rightarrow>
          if reconnectTimerPending s \<and> alive s then connectAttempts s + 1 else connectAttempts s
      | _ \<Rightarrow> connectAttempts s)"
  proof (cases e)
    case (Data x)
    then show ?thesis by (simp add: connectAttempts_on_data)
  qed (auto simp: handler_defs split: sum.splits)
  show ?thesis using a b c by (intro conjI)
qed

theorem attempt_counter_changes_witness:
  "connectAttempts (start sample_camera) = 1 \<and>
   connectAttempts (step (SocketClose False) (start sample_camera)) = 1 \<and>
   connectAttempts (step ReconnectTimerFires (step (SocketClose False) (start sample_camera))) = 2"
proof -
  have a: "\<not> alive sample_camera" "connectAttempts sample_camera = 0"
    by (simp_all add: sample_camera_def new_PrinterCameraNode_def)
  have b: "connectAttempts (start sample_camera) = 1"
    using attempt_counter_changes [of h c p u t d f sample_camera e] a by simp
  have c: "connectAttempts (step (SocketClose False) (start sample_camera)) = 1"
    using attempt_counter_changes [of h c p u t d f "start sample_camera" "SocketClose False"] b
    by simp
  have d: "reconnectTimerPending (step (SocketClose False) (start sample_camera))"
    "alive (step (SocketClose False) (start sample_camera))"
    by (simp_all add: sample_started on_close_def scheduleReconnect_def Let_def)
       (simp_all add: sample_camera_def new_PrinterCameraNode_def)
  show ?thesis
    using attempt_counter_changes [of h c p u t d f
        "step (SocketClose False) (start sample_camera)" ReconnectTimerFires] b c d
    by simp
qed

theorem attempt_counter_reset_on_connect:
  "connectAttempts (start sample_camera) = 1 \<and>
   connectAttempts (run [SecureConnect] (start sample_camera)) = 0"
  by (simp add: sample_started on_secureConnect_def buildAuthData_layout)
     (simp add: sample_camera_def new_PrinterCameraNode_def buildAuthData_layout)

text \<open>
  C6. A live, unsettled decoder that awaits a header with an empty buffer is fed, in one
  call, a 16-byte header whose first four bytes are \<open>L\<close> in little-endian with
  \<open>0 < L \<le> 15 MiB\<close>, then \<open>L\<close> payload bytes that begin with \<open>FF D8 FF E0\<close> and end with
  \<open>FF D9\<close>, then any trailing bytes. Exactly one frame is accepted, it is the payload,
  and the buffer afterwards holds exactly the trailing bytes.
\<close>

theorem exact_extraction:
  assumes "alive s" and "\<not> hasResolvedOrRejected s"
    and "\<not> isReceivingImage s" and "currentFrameBuffer s = []"
    and "0 < L" and "L \<le> 15 * 1024 * 1024"
    and "length reserved = 12"
    and "length payload = L" and "take 4 payload = [0xff, 0xd8, 0xff, 0xe0]"
    and "drop (L - 2) payload = [0xff, 0xd9]"
  shows "outcomes (on_data (le32 L @ reserved @ payload @ trailing) s) = outcomes s @ [Success payload]
       \<and> lastFrameData (on_data (le32 L @ reserved @ payload @ trailing) s) = Some payload
       \<and> currentFrameBuffer (on_data (le32 L @ reserved @ payload @ trailing) s) = trailing
       \<and> \<not> isReceivingImage (on_data (le32 L @ reserved @ payload @ trailing) s)"
  using assms by (rule on_data_exact_unit)

theorem exact_extraction_witness:
  "outcomes (on_data (sample_unit @ [7, 7]) sample_streaming) = [Success sample_jpeg] \<and>
   lastFrameData (on_data (sample_unit @ [7, 7]) sample_streaming) = Some sample_jpeg \<and>
   currentFrameBuffer (on_data (sample_unit @ [7, 7]) sample_streaming) = [7, 7]"
  using exact_extraction [of sample_streaming 10 "replicate 12 0" sample_jpeg "[7, 7]"]
  by (simp add: sample_streaming_fields sample_unit_def sample_jpeg_def)

text \<open>
  C7, as the code has it. Take any state of a session whose promise is pending and any
  call of the \<open>data\<close> handler in which the session hands a frame to the \<open>resolve\<close>
  callback of \<open>start\<close>. The callback receives the bytes of the frame. The public
  operation itself then saves them: it creates the output directory if it does not
  exist and writes the file named after the host, with dots and colons replaced by
  underscores and the suffix \<open>.jpg\<close>. It resolves its promise with the path of that
  file, not with the bytes. If the file system raises its fault, nothing is written
  and the promise is rejected with that exception.
\<close>

theorem capture_saves_and_resolves_path:
  assumes "promise s = Pending" and "outcomes (on_data d s) \<noteq> outcomes s"
  shows "\<exists>img. outcomes (on_data d s) = outcomes s @ [Success img] \<and>
           lastFrameData (on_data d s) = Some img \<and>
           (case fault (fs s) of
              None \<Rightarrow>
                promise (on_data d s) = Fulfilled (PathString (saved_path s)) \<and>
                files (fs (on_data d s)) = (saved_path s, img) # files (fs s) \<and>
                dirs (fs (on_data d s)) =
                  (if existsSync (outputDir s) (fs s) then dirs (fs s)
                   else outputDir s # dirs (fs s))
            | Some e \<Rightarrow>
                promise (on_data d s) = Rejected (Thrown e) \<and>
                files (fs (on_data d s)) = files (fs s) \<and>
                dirs (fs (on_data d s)) = dirs (fs s))"
  using on_data_cases [of d s]
proof (elim disjE exE conjE)
  fix b e r w
  assume "on_data d s = set_decoder b e r w s"
  then have "outcomes (on_data d s) = outcomes s" by simp
  then show ?thesis using assms(2) by simp
next
  fix img b e r w
  assume a: "on_data d s = accept_frame img (set_decoder b e r w s)"
    and live: "alive s" "\<not> hasResolvedOrRejected s"
  let ?t = "set_decoder b e r w s"
  have t: "\<not> hasResolvedOrRejected ?t" "promise ?t = Pending"
    using live assms(1) by simp_all
  have sp: "saved_path ?t = saved_path s" by (simp add: saved_path_def)
  from accept_frame_persists [OF t, of img] show ?thesis
    unfolding a by (intro exI [of _ img]) (simp add: sp existsSync_def split: option.splits)
qed

theorem capture_saves_and_resolves_path_witness:
  "outcomes (on_data sample_unit sample_streaming) = [Success sample_jpeg] \<and>
   lastFrameData (on_data sample_unit sample_streaming) = Some sample_jpeg \<and>
   promise (on_data sample_unit sample_streaming) =
     Fulfilled (PathString (PathResolve ''/tmp/img'' ''192_168_1_50.jpg'')) \<and>
   files (fs (on_data sample_unit sample_streaming)) =
     [(PathResolve ''/tmp/img'' ''192_168_1_50.jpg'', sample_jpeg)] \<and>
   dirs (fs (on_data sample_unit sample_streaming)) = [''/tmp/img'']"
proof -
  have o: "outcomes (on_data sample_unit sample_streaming) = [Success sample_jpeg]"
    using on_data_exact_unit [of sample_streaming 10 "replicate 12 0" sample_jpeg "[]"]
    by (simp add: sample_streaming_fields sample_jpeg_def sample_unit_def)
  show ?thesis
    using capture_saves_and_resolves_path [of sample_streaming sample_unit] o
    by (simp add: sample_streaming_fields sample_fs_def saved_path_def safePrinterName_def
          existsSync_def)
qed

theorem public_operation_resolves_path_not_bytes:
  "promise (run [SecureConnect, Data sample_unit] sample_session) \<noteq>
     Fulfilled (Bytes sample_jpeg) \<and>
   promise (run [SecureConnect, Data sample_unit] sample_session) =
     Fulfilled (PathString (PathResolve ''/tmp/img'' ''192_168_1_50.jpg'')) \<and>
   files (fs (run [SecureConnect, Data sample_unit] sample_session)) =
     [(PathResolve ''/tmp/img'' ''192_168_1_50.jpg'', sample_jpeg)]"
proof -
  let ?t = "sample_streaming\<lparr>expectedPayloadSize := 10, currentFrameBuffer := [],
               isReceivingImage := False\<rparr>"
  have e: "on_data (le32 10 @ replicate 12 0 @ sample_jpeg @ []) sample_streaming =
           accept_frame sample_jpeg ?t"
    by (rule on_data_exact_unit_state)
       (simp_all add: sample_streaming_fields sample_jpeg_def)
  have "\<not> hasResolvedOrRejected ?t" "promise ?t = Pending"
    by (simp_all add: sample_streaming_fields)
  from accept_frame_saves [OF this, of sample_jpeg]
  have "promise (on_data sample_unit sample_streaming) =
          Fulfilled (PathString (PathResolve ''/tmp/img'' ''192_168_1_50.jpg'')) \<and>
        files (fs (on_data sample_unit sample_streaming)) =
          [(PathResolve ''/tmp/img'' ''192_168_1_50.jpg'', sample_jpeg)]"
    using e
    by (simp add: sample_unit_def sample_streaming_fields sample_fs_def saved_path_def
          safePrinterName_def)
  moreover have "run [SecureConnect, Data sample_unit] sample_session =
                 on_data sample_unit sample_streaming"
    using sample_session_streaming by simp
  ultimately show ?thesis by simp
qed

text \<open>
  C8. For every user name and access code of at most 32 characters, the record built
  by \<open>_buildAuthData\<close> is exactly the 80 bytes of \<open>auth_layout\<close>: bytes 0 to 3 the magic
  \<open>0x40\<close>, bytes 4 to 7 the message type \<open>0x3000\<close>, bytes 8 to 15 zero, bytes 16 to 47
  the user name padded with zeros, bytes 48 to 79 the access code padded with zeros.
  The callback of \<open>tls.connect\<close> writes this record to the socket, and a fresh session
  has written nothing before it.
\<close>

theorem auth_record_layout:
  assumes "length (username s) \<le> 32" and "length (accessCode s) \<le> 32" and "socket s"
  shows "buildAuthData s = Inr (auth_layout (username s) (accessCode s))
       \<and> length (auth_layout (username s) (accessCode s)) = 80
       \<and> take 4 (auth_layout (username s) (accessCode s)) = [0x40, 0, 0, 0]
       \<and> take 4 (drop 4 (auth_layout (username s) (accessCode s))) = [0, 0x30, 0, 0]
       \<and> take 8 (drop 8 (auth_layout (username s) (accessCode s))) = replicate 8 0
       \<and> take 32 (drop 16 (auth_layout (username s) (accessCode s))) =
           map of_char (username s) @ replicate (32 - length (username s)) 0
       \<and> drop 48 (auth_layout (username s) (accessCode s)) =
           map of_char (accessCode s) @ replicate (32 - length (accessCode s)) 0
       \<and> written (on_secureConnect s) = written s @ [auth_layout (username s) (accessCode s)]"
proof -
  have b: "buildAuthData s = Inr (auth_layout (username s) (accessCode s))"
    using assms by (simp add: buildAuthData_layout)
  have l: "length (auth_layout (username s) (accessCode s)) = 80"
    using assms by (simp add: auth_layout_def auth_header_def)
  have m: "take 4 (auth_layout (username s) (accessCode s)) = [0x40, 0, 0, 0]"
    by (simp add: auth_layout_def auth_header_def)
  have t: "take 4 (drop 4 (auth_layout (username s) (accessCode s))) = [0, 0x30, 0, 0]"
    by (simp add: auth_layout_def auth_header_def)
  have z: "take 8 (drop 8 (auth_layout (username s) (accessCode s))) = replicate 8 0"
    by (simp add: auth_layout_def auth_header_def)
  have u: "take 32 (drop 16 (auth_layout (username s) (accessCode s))) =
           map of_char (username s) @ replicate (32 - length (username s)) 0"
    using assms by (simp add: auth_layout_def auth_header_def)
  have c: "drop 48 (auth_layout (username s) (accessCode s)) =
           map of_char (accessCode s) @ replicate (32 - length (accessCode s)) 0"
    using assms by (simp add: auth_layout_def auth_header_def)
  have w: "written (on_secureConnect s) = written s @ [auth_layout (username s) (accessCode s)]"
    using assms b by (simp add: on_secureConnect_def)
  show ?thesis using b l m t z u c w by (intro conjI)
qed

theorem auth_record_layout_witness:
  "buildAuthData (start sample_camera) = Inr (auth_layout ''bblp'' ''12345678'') \<and>
   length (auth_layout ''bblp'' ''12345678'') = 80 \<and>
   written (start sample_camera) = [] \<and>
   written (on_secureConnect (start sample_camera)) = [auth_layout ''bblp'' ''12345678'']"
  using auth_record_layout [of "start sample_camera"]
  by (simp add: sample_started) (simp add: sample_camera_def new_PrinterCameraNode_def)

text \<open>
  C9. In every session that has settled, that is, one of the callbacks handed to
  \<open>start\<close> was called, any number of calls of \<open>stop\<close> leaves the session as it is:
  no field changes, no socket is destroyed, no callback is called. The handler that
  settles a session also stops it before it returns, so a later call of \<open>stop\<close> finds
  nothing left to do.
\<close>

theorem stop_after_settlement:
  assumes "outcomes (run evs (captureSingleFrameFromPrinter ip code opts cwd f)) \<noteq> []"
  shows "run (replicate n Stop) (run evs (captureSingleFrameFromPrinter ip code opts cwd f)) =
           run evs (captureSingleFrameFromPrinter ip code opts cwd f)"
proof -
  let ?s = "run evs (captureSingleFrameFromPrinter ip code opts cwd f)"
  have i: "session_inv ?s" by (intro inv_run inv_capture)
  then have "hasResolvedOrRejected ?s" using assms by (simp add: session_inv_def)
  then show ?thesis using i by (rule settled_stop_run [rotated])
qed

theorem stop_after_settlement_witness:
  "outcomes (run [SecureConnect, Data sample_unit] sample_session) = [Success sample_jpeg] \<and>
   run (replicate 2 Stop) (run [SecureConnect, Data sample_unit] sample_session) =
     run [SecureConnect, Data sample_unit] sample_session"
  using stop_after_settlement [of "[SecureConnect, Data sample_unit]" "''192.168.1.50''"
      "''12345678''" sample_options "''/home/bot''" sample_fs 2]
    sample_capture_outcomes
  unfolding sample_session_def [symmetric] by simp

text \<open>
  C10. A session whose \<open>timeoutMs\<close> is zero or negative never has an operation timer:
  \<open>start\<close> sets none and nothing else does. Whatever events follow, no callback is
  called with the time-out error and the promise is never rejected with it. As long as
  the caller does not call \<open>stop\<close>, and host and access code were given, the only results
  the session can settle with are an accepted frame and the exhaustion of the retries.
\<close>

theorem no_operation_timer:
  assumes "opt_timeoutMs opts = Some t" and "t \<le> 0"
  shows "\<not> operationTimerPending (run evs (captureSingleFrameFromPrinter ip code opts cwd f)) \<and>
         \<not> operationTimeout (run evs (captureSingleFrameFromPrinter ip code opts cwd f)) \<and>
         list_all (\<lambda>r. \<not> is_timeout r)
           (outcomes (run evs (captureSingleFrameFromPrinter ip code opts cwd f))) \<and>
         promise (run evs (captureSingleFrameFromPrinter ip code opts cwd f)) \<noteq>
           Rejected (OperationTimedOut t') \<and>
         (ip \<noteq> [] \<and> code \<noteq> [] \<and> Stop \<notin> set evs \<longrightarrow>
          list_all frame_or_exhausted
            (outcomes (run evs (captureSingleFrameFromPrinter ip code opts cwd f))))"
proof -
  let ?s = "run evs (captureSingleFrameFromPrinter ip code opts cwd f)"
  have n: "no_timer ?s" by (intro no_timer_run no_timer_capture [OF assms])
  have "waiting ?s" if "ip \<noteq> []" "code \<noteq> []" "Stop \<notin> set evs"
    using that by (intro waiting_run waiting_capture [OF assms])
  then have w: "ip \<noteq> [] \<and> code \<noteq> [] \<and> Stop \<notin> set evs \<longrightarrow>
                list_all frame_or_exhausted (outcomes ?s)"
    by (simp add: waiting_def)
  have p: "promise ?s \<noteq> Rejected (OperationTimedOut t')"
    using n by (auto simp: no_timer_def)
  show ?thesis using n w p by (simp add: no_timer_def)
qed

theorem no_operation_timer_witness:
  "(0::int) \<le> 0 \<and>
   \<not> operationTimerPending
       (run [SocketTimeout, OperationTimerFires]
          (captureSingleFrameFromPrinter ''192.168.1.50'' ''12345678'' sample_options_no_timeout
             ''/home/bot'' sample_fs)) \<and>
   outcomes
       (run [SocketTimeout, OperationTimerFires]
          (captureSingleFrameFromPrinter ''192.168.1.50'' ''12345678'' sample_options_no_timeout
             ''/home/bot'' sample_fs)) = []"
proof -
  have o: "opt_timeoutMs sample_options_no_timeout = Some 0"
    by (simp add: sample_options_no_timeout_def)
  have z: "(0::int) \<le> 0" by simp
  have "outcomes
       (run [SocketTimeout, OperationTimerFires]
          (captureSingleFrameFromPrinter ''192.168.1.50'' ''12345678'' sample_options_no_timeout
             ''/home/bot'' sample_fs)) = []"
    unfolding sample_no_timeout_started
    by (simp add: on_timeout_def on_operationTimeout_def new_PrinterCameraNode_def Let_def)
  then show ?thesis
    using no_operation_timer [OF o z, of "[SocketTimeout, OperationTimerFires]" "''192.168.1.50''"
        "''12345678''" "''/home/bot''" sample_fs 0]
    by simp
qed

end
